theory Spec2Isabelle
  imports Main
begin

section \<open>Python string primitives used by the scripts\<close>

text \<open>
  A Python \<open>str\<close> is modelled as a \<open>string\<close> (a list of characters). The scripts use
  \<open>startswith\<close>, the slices \<open>s[:22]\<close>, \<open>s[22:26]\<close>, \<open>s[26:]\<close>, \<open>str\<close> on an
  integer and \<open>rjust(4)\<close>. None of them raises: a slice of a string that is too short
  is clipped, exactly as \<open>take\<close> and \<open>drop\<close> are.
\<close>

definition startswith :: "string \<Rightarrow> string \<Rightarrow> bool" where
  "startswith s p = (take (length p) s = p)"

definition slice :: "nat \<Rightarrow> nat \<Rightarrow> string \<Rightarrow> string" where
  "slice a b s = drop a (take b s)"

definition digits :: string where
  "digits = ''0123456789''"

definition digit_char :: "nat \<Rightarrow> char" where
  "digit_char d = digits ! d"

fun str_nat :: "nat \<Rightarrow> string" where
  "str_nat n = (if n < 10 then [digit_char n] else str_nat (n div 10) @ [digit_char (n mod 10)])"

declare str_nat.simps [simp del]

text \<open>\<open>str\<close> on an integer: the decimal digits, after a minus sign when it is negative.\<close>

definition str :: "int \<Rightarrow> string" where
  "str i = (if i < 0 then CHR ''-'' # str_nat (nat (- i)) else str_nat (nat i))"

definition rjust :: "nat \<Rightarrow> string \<Rightarrow> string" where
  "rjust w s = replicate (w - length s) CHR '' '' @ s"

section \<open>The residue renumberer (pdb-residue-index-reset.py)\<close>

text \<open>
  The script reads a file with \<open>readlines\<close> (every line keeps its terminator), walks
  the lines with two variables, \<open>current_residue\<close> (initially \<open>None\<close>) and
  \<open>current_residue_number\<close> (initially \<open>start_residue - 1 = 0\<close>), replaces
  \<open>lines[i]\<close> for lines that start with \<open>ATOM\<close> or \<open>TER\<close>, and writes the list back
  with \<open>writelines\<close>.
\<close>

record renumber_state =
  current_residue :: "string option"
  current_residue_number :: int

definition initial_state :: renumber_state where
  "initial_state = \<lparr>current_residue = None, current_residue_number = 1 - 1\<rparr>"

text \<open>
  One iteration of the loop body for the line \<open>line\<close>. The two \<open>if\<close> statements of the
  source run one after the other; both test and slice the loop variable \<open>line\<close>, which
  the assignment to \<open>lines[i]\<close> does not change. The result is the new state and the new
  value of \<open>lines[i]\<close>.
\<close>

definition renumber_step :: "renumber_state \<Rightarrow> string \<Rightarrow> renumber_state \<times> string" where
  "renumber_step st line =
     (let (st1, out1) =
            (if startswith line ''ATOM'' then
               (let residue = slice 22 26 line;
                    st' = (if Some residue \<noteq> current_residue st
                           then st\<lparr>current_residue := Some residue,
                                   current_residue_number := current_residue_number st + 1\<rparr>
                           else st)
                in (st', take 22 line @ rjust 4 (str (current_residue_number st')) @ drop 26 line))
             else (st, line))
      in
        (if startswith line ''TER'' then
           (let residue = slice 22 26 line;
                st' = (if Some residue \<noteq> current_residue st1
                       then st1\<lparr>current_residue := Some residue\<rparr>
                       else st1)
            in (st', take 22 line @ rjust 4 (str (current_residue_number st')) @ drop 26 line))
         else (st1, out1)))"

fun renumber_lines :: "renumber_state \<Rightarrow> string list \<Rightarrow> string list" where
  "renumber_lines st [] = []"
| "renumber_lines st (line # rest) =
     (let (st', out) = renumber_step st line in out # renumber_lines st' rest)"

text \<open>The state the loop has reached after a prefix of the lines.\<close>

fun state_after :: "renumber_state \<Rightarrow> string list \<Rightarrow> renumber_state" where
  "state_after st [] = st"
| "state_after st (line # rest) = state_after (fst (renumber_step st line)) rest"

definition renumber :: "string list \<Rightarrow> string list" where
  "renumber lines = renumber_lines initial_state lines"

text \<open>
  \<open>readlines\<close> cuts the text after every newline character and keeps the terminators;
  \<open>writelines\<close> writes the strings one after the other. The file is opened in text
  mode, so \<open>content\<close> is the text as Python hands it over, with every line terminator
  read as one newline character.
\<close>

fun readlines :: "string \<Rightarrow> string list" where
  "readlines [] = []"
| "readlines (c # cs) =
     (if c = CHR 0x0A then [c] # readlines cs
      else (case readlines cs of [] \<Rightarrow> [[c]] | l # ls \<Rightarrow> (c # l) # ls))"

definition writelines :: "string list \<Rightarrow> string" where
  "writelines ls = concat ls"

definition renumber_file :: "string \<Rightarrow> string" where
  "renumber_file content = writelines (renumber (readlines content))"

section \<open>Notions used to state the properties of the renumberer\<close>

text \<open>
  The script never parses the residue-number field; it compares the four characters as
  text. To speak of a field that is "not parseable as an integer", \<open>parses_as_int\<close> says
  when Python's \<open>int\<close> accepts an ASCII string: whitespace is stripped at both ends, a
  sign may come first, and decimal digits follow, where single underscores may stand
  between digits.
\<close>

definition whitespace :: "char \<Rightarrow> bool" where
  "whitespace c = (c \<in> set [CHR '' '', CHR 0x09, CHR 0x0A, CHR 0x0B, CHR 0x0C, CHR 0x0D])"

definition strip :: "string \<Rightarrow> string" where
  "strip s = rev (dropWhile whitespace (rev (dropWhile whitespace s)))"

fun digit_groups :: "string \<Rightarrow> bool" where
  "digit_groups [] = False"
| "digit_groups [c] = (c \<in> set digits)"
| "digit_groups (c # d # r) =
     (c \<in> set digits \<and> (if d = CHR ''_'' then digit_groups r else digit_groups (d # r)))"

definition parses_as_int :: "string \<Rightarrow> bool" where
  "parses_as_int s =
     (let t = strip s;
          u = (case t of [] \<Rightarrow> [] | c # r \<Rightarrow> if c = CHR ''+'' \<or> c = CHR ''-'' then r else t)
      in digit_groups u)"




text \<open>
  The shape of what \<open>readlines\<close> returns: no string is empty, a newline can only be
  the last character of a string, and every string but the last one ends with a newline.
\<close>

fun lines_ok :: "string list \<Rightarrow> bool" where
  "lines_ok [] = True"
| "lines_ok [l] = (l \<noteq> [] \<and> CHR 0x0A \<notin> set (butlast l))"
| "lines_ok (l # m # ms) =
     (l \<noteq> [] \<and> CHR 0x0A \<notin> set (butlast l) \<and> last l = CHR 0x0A \<and> lines_ok (m # ms))"

text \<open>
  \<open>follows st st2\<close> relates the state \<open>st\<close> of a first pass over a file to the state
  \<open>st2\<close> of a second pass over its output at the same line: the counters agree, and the
  current identifier of the second pass is the counter text written by the first.
\<close>

definition follows :: "renumber_state \<Rightarrow> renumber_state \<Rightarrow> bool" where
  "follows st st2 =
     (current_residue_number st2 = current_residue_number st \<and>
      current_residue st2 =
        map_option (\<lambda>_. rjust 4 (str (current_residue_number st))) (current_residue st))"

section \<open>Sample records\<close>

text \<open>
  Test data for the worked examples: an ATOM record and a TER record in the fixed-column
  layout (80 columns and a terminator), with the residue-number field (columns 23-26)
  left as a parameter.
\<close>

definition atom_line :: "string \<Rightarrow> string" where
  "atom_line resseq =
     ''ATOM      1  N   MET A'' @ resseq @
     ''      27.340  24.430   2.614  1.00  9.67           N  \<newline>''"

definition ter_line :: "string \<Rightarrow> string" where
  "ter_line resseq =
     ''TER       2      MET A'' @ resseq @
     ''                                                      \<newline>''"

section \<open>The structure segmenter (pdb-split-files.py)\<close>

text \<open>
  The script loads a file with the parser of the Bio.PDB library and walks the result:
  \<open>for model in structure\<close>, \<open>for chain in model\<close>, \<open>for residue in
  chain.get_residues()\<close>. A structure is a list of models, a model a list of chains, a
  chain a list of residues in file order. A residue carries its sequence number as
  recorded in the file, the flag that tells a hetero residue (water, ligand) from a
  residue of the polymer, and its atoms, each with its name and its record.
\<close>

record atom =
  atom_name :: string
  atom_record :: string

record residue =
  hetero :: bool
  res_id :: int
  res_atoms :: "atom list"

record chain =
  chain_id :: string
  residues :: "residue list"

record model =
  model_id :: int
  chains :: "chain list"

type_synonym "structure" = "model list"

text \<open>
  The only effect of the script on the file system is the call
  \<open>io.save(file_save, selection)\<close>, where \<open>selection\<close> is
  \<open>ChainSelector(chain_id, start, start + 8)\<close> and \<open>file_save\<close> is
  \<open>os.path.join(directory, file_prefix + '_' + str(start) + '.pdb')\<close>. The run of the
  script on one file is modelled by the list of these calls, in order.
\<close>

record selection =
  sel_chain_id :: string
  sel_start :: int
  sel_end :: int
  sel_model_id :: int

record save_call =
  file_save :: string
  selection :: selection

definition ChainSelector :: "string \<Rightarrow> int \<Rightarrow> int \<Rightarrow> selection" where
  "ChainSelector cid start end =
     \<lparr>sel_chain_id = cid, sel_start = start, sel_end = end, sel_model_id = 0\<rparr>"

text \<open>
  \<open>os.path.join\<close> for a file name without separators, as \<open>file_prefix\<close> and what is
  appended to it are: the directory, a separator unless the directory is empty or ends
  with one, and the name.
\<close>

definition path_join :: "string \<Rightarrow> string \<Rightarrow> string" where
  "path_join directory name =
     (if directory = [] \<or> last directory = CHR ''/'' then directory @ name
      else directory @ ''/'' @ name)"

definition save_window :: "string \<Rightarrow> string \<Rightarrow> string \<Rightarrow> int \<Rightarrow> save_call" where
  "save_window directory file_prefix cid start =
     \<lparr>file_save = path_join directory (file_prefix @ ''_'' @ str start @ ''.pdb''),
      selection = ChainSelector cid start (start + 8)\<rparr>"

definition inner_loop :: "string \<Rightarrow> string \<Rightarrow> string \<Rightarrow> int \<Rightarrow> save_call list" where
  "inner_loop directory file_prefix cid start =
     map (\<lambda>count. save_window directory file_prefix cid start) [start..start + 8 - 1]"

text \<open>
  The loops. \<open>count = start = length = 0\<close> is executed once per file, before the loop
  over the models: \<open>start\<close> is not reset when the next chain or the next model begins,
  so it is passed from chain to chain. \<open>length\<close> is assigned for every chain before it
  is read, and \<open>count\<close> is only the variable of the inner loop, which is never read.
  The loop over the residues adds one to \<open>start\<close>, leaves the loop (\<open>break\<close>) when
  \<open>start + 8 > length\<close>, and otherwise runs the inner loop
  \<open>for count in range(start, start + 8)\<close>, which saves the same window eight times.
  The calls are collected per model and per chain.
\<close>

fun residue_loop ::
  "string \<Rightarrow> string \<Rightarrow> string \<Rightarrow> int \<Rightarrow> int \<Rightarrow> residue list \<Rightarrow> int \<times> save_call list" where
  "residue_loop directory file_prefix cid len start [] = (start, [])"
| "residue_loop directory file_prefix cid len start (r # rs) =
     (let start' = start + 1 in
      if start' + 8 > len then (start', [])
      else (let (s, calls) = residue_loop directory file_prefix cid len start' rs
            in (s, inner_loop directory file_prefix cid start' @ calls)))"

fun chain_loop ::
  "string \<Rightarrow> string \<Rightarrow> int \<Rightarrow> chain list \<Rightarrow> int \<times> save_call list list" where
  "chain_loop directory file_prefix start [] = (start, [])"
| "chain_loop directory file_prefix start (c # cs) =
     (let len = int (length (residues c));
          (s1, calls) = residue_loop directory file_prefix (chain_id c) len start (residues c);
          (s2, rest) = chain_loop directory file_prefix s1 cs
      in (s2, calls # rest))"

fun model_loop ::
  "string \<Rightarrow> string \<Rightarrow> int \<Rightarrow> model list \<Rightarrow> int \<times> save_call list list list" where
  "model_loop directory file_prefix start [] = (start, [])"
| "model_loop directory file_prefix start (m # ms) =
     (let (s1, calls) = chain_loop directory file_prefix start (chains m);
          (s2, rest) = model_loop directory file_prefix s1 ms
      in (s2, calls # rest))"

definition split_file :: "string \<Rightarrow> string \<Rightarrow> structure \<Rightarrow> save_call list list list" where
  "split_file directory file_prefix structure = snd (model_loop directory file_prefix 0 structure)"

definition save_calls :: "string \<Rightarrow> string \<Rightarrow> structure \<Rightarrow> save_call list" where
  "save_calls directory file_prefix structure =
     concat (concat (split_file directory file_prefix structure))"

text \<open>
  The value of \<open>start\<close> when the loop over the chains reaches the chain at position
  \<open>i\<close> of the model at position \<open>m\<close>: what the loops over the models and chains before
  it have left.
\<close>

definition start_at :: "string \<Rightarrow> string \<Rightarrow> structure \<Rightarrow> nat \<Rightarrow> nat \<Rightarrow> int" where
  "start_at directory file_prefix structure m i =
     fst (chain_loop directory file_prefix
            (fst (model_loop directory file_prefix 0 (take m structure)))
            (take i (chains (structure ! m))))"

text \<open>
  The file system after a list of calls: \<open>io.save\<close> opens the file for writing and
  writes the selected part of the structure, so the file at \<open>file_save\<close> then holds what
  the selection serializes to, whatever it held before. The serializer belongs to the
  library and is a parameter.
\<close>

fun apply_saves :: "(selection \<Rightarrow> 'c) \<Rightarrow> (string \<rightharpoonup> 'c) \<Rightarrow> save_call list \<Rightarrow> (string \<rightharpoonup> 'c)" where
  "apply_saves serialize fs [] = fs"
| "apply_saves serialize fs (c # cs) =
     apply_saves serialize (fs(file_save c \<mapsto> serialize (selection c))) cs"

text \<open>
  Modelled from the spec: section 6 names "a complementary serialization capability that
  can write a selected residue range of a chain to a new file". The script takes it from
  the Bio.PDB library (\<open>ChainSelector\<close> and \<open>PDBIO.save\<close>), whose code is not part of
  the repository. The tests below are written as that library documents
  \<open>ChainSelector\<close>: "Only accepts residues with right chainid, between start and end.
  Remove hydrogens, waters and ligands. Only use model 0 by default." A model is accepted
  when its id is the selector's model id, a chain when its id is the selector's chain id,
  a residue when it is not a hetero residue and \<open>start <= resseq <= end\<close>, an atom unless
  its name, after leading characters \<open>1\<close>, \<open>2\<close>, \<open>3\<close> and blank, begins with \<open>H\<close>.
  \<open>saved_residues\<close> lists the residues \<open>PDBIO.save\<close> writes, the accepted residues of
  the accepted chains of the accepted models, and \<open>saved_atoms\<close> the atoms whose records
  it writes, the accepted atoms of these residues. The residues of a chain are the
  entries the script counts with \<open>chain.get_residues()\<close>; a residue with point-mutation
  disorder, which the library's writer unpacks into several residues, and alternate
  locations of an atom are not modelled.
\<close>

definition is_hydrogen :: "string \<Rightarrow> bool" where
  "is_hydrogen name =
     (case dropWhile (\<lambda>c. c \<in> set ''123 '') name of [] \<Rightarrow> False | c # _ \<Rightarrow> c = CHR ''H'')"

definition accept_model :: "selection \<Rightarrow> model \<Rightarrow> bool" where
  "accept_model sel m = (model_id m = sel_model_id sel)"

definition accept_chain :: "selection \<Rightarrow> chain \<Rightarrow> bool" where
  "accept_chain sel c = (chain_id c = sel_chain_id sel)"

definition accept_residue :: "selection \<Rightarrow> residue \<Rightarrow> bool" where
  "accept_residue sel r = (\<not> hetero r \<and> sel_start sel \<le> res_id r \<and> res_id r \<le> sel_end sel)"

definition accept_atom :: "selection \<Rightarrow> atom \<Rightarrow> bool" where
  "accept_atom sel a = (\<not> is_hydrogen (atom_name a))"

definition saved_residues :: "structure \<Rightarrow> selection \<Rightarrow> residue list" where
  "saved_residues structure sel =
     concat (map (\<lambda>m.
       concat (map (\<lambda>c. filter (accept_residue sel) (residues c))
         (filter (accept_chain sel) (chains m))))
       (filter (accept_model sel) structure))"

definition saved_atoms :: "structure \<Rightarrow> selection \<Rightarrow> atom list" where
  "saved_atoms structure sel =
     concat (map (\<lambda>r. filter (accept_atom sel) (res_atoms r)) (saved_residues structure sel))"

text \<open>
  The structure in which the chain at position \<open>i\<close> of the model at position \<open>m\<close> has
  the residues \<open>rs\<close> and everything else is as in \<open>structure\<close>: what a file holds does
  not depend on a chain when it is the same for every \<open>rs\<close>.
\<close>

definition with_residues :: "structure \<Rightarrow> nat \<Rightarrow> nat \<Rightarrow> residue list \<Rightarrow> structure" where
  "with_residues structure m i rs =
     structure[m := (structure ! m)
       \<lparr>chains := (chains (structure ! m))[i := (chains (structure ! m) ! i)\<lparr>residues := rs\<rparr>]\<rparr>]"

text \<open>
  The corrected design the specification describes, for comparison with the script: the
  same loops with the window serialized exactly once for every value of \<open>start\<close>.
\<close>

fun residue_loop_once ::
  "string \<Rightarrow> string \<Rightarrow> string \<Rightarrow> int \<Rightarrow> int \<Rightarrow> residue list \<Rightarrow> int \<times> save_call list" where
  "residue_loop_once directory file_prefix cid len start [] = (start, [])"
| "residue_loop_once directory file_prefix cid len start (r # rs) =
     (let start' = start + 1 in
      if start' + 8 > len then (start', [])
      else (let (s, calls) = residue_loop_once directory file_prefix cid len start' rs
            in (s, save_window directory file_prefix cid start' # calls)))"

fun chain_loop_once ::
  "string \<Rightarrow> string \<Rightarrow> int \<Rightarrow> chain list \<Rightarrow> int \<times> save_call list list" where
  "chain_loop_once directory file_prefix start [] = (start, [])"
| "chain_loop_once directory file_prefix start (c # cs) =
     (let len = int (length (residues c));
          (s1, calls) = residue_loop_once directory file_prefix (chain_id c) len start (residues c);
          (s2, rest) = chain_loop_once directory file_prefix s1 cs
      in (s2, calls # rest))"

fun model_loop_once ::
  "string \<Rightarrow> string \<Rightarrow> int \<Rightarrow> model list \<Rightarrow> int \<times> save_call list list list" where
  "model_loop_once directory file_prefix start [] = (start, [])"
| "model_loop_once directory file_prefix start (m # ms) =
     (let (s1, calls) = chain_loop_once directory file_prefix start (chains m);
          (s2, rest) = model_loop_once directory file_prefix s1 ms
      in (s2, calls # rest))"

definition save_calls_once :: "string \<Rightarrow> string \<Rightarrow> structure \<Rightarrow> save_call list" where
  "save_calls_once directory file_prefix structure =
     concat (concat (snd (model_loop_once directory file_prefix 0 structure)))"

text \<open>
  Test data: a chain whose residues are given by their hetero flags and sequence numbers,
  every residue with an alpha carbon \<open>CA\<close> and a hydrogen \<open>HA\<close>.
\<close>

definition sample_chain :: "string \<Rightarrow> (bool \<times> int) list \<Rightarrow> chain" where
  "sample_chain cid entries =
     \<lparr>chain_id = cid,
      residues = map (\<lambda>(h, i). \<lparr>hetero = h, res_id = i,
                                  res_atoms = [\<lparr>atom_name = ''CA'', atom_record = ''CA'' @ str i\<rparr>,
                                               \<lparr>atom_name = ''HA'', atom_record = ''HA'' @ str i\<rparr>]\<rparr>)
                     entries\<rparr>"

text \<open>
  Test data: a chain of \<open>n\<close> residues numbered \<open>first\<close>, \<open>first + 1\<close>, ... without
  atom records.
\<close>

definition numbered_chain :: "string \<Rightarrow> int \<Rightarrow> nat \<Rightarrow> chain" where
  "numbered_chain cid first n =
     \<lparr>chain_id = cid,
      residues = map (\<lambda>i. \<lparr>hetero = False, res_id = first + int i, res_atoms = []\<rparr>)
                   [0..<n]\<rparr>"

section \<open>Facts about the string primitives\<close>

lemma length_digits: "length digits = 10"
  by (simp add: digits_def)

lemma distinct_digits: "distinct digits"
  by (simp add: digits_def)

lemma space_notin_digits: "CHR '' '' \<notin> set digits"
  by (simp add: digits_def)

lemma newline_notin_digits: "CHR 0x0A \<notin> set digits"
  by (simp add: digits_def)

lemma digit_char_inj: "d < 10 \<Longrightarrow> e < 10 \<Longrightarrow> digit_char d = digit_char e \<Longrightarrow> d = e"
  by (simp add: digit_char_def nth_eq_iff_index_eq distinct_digits length_digits)

lemma digit_char_mem: "d < 10 \<Longrightarrow> digit_char d \<in> set digits"
  by (simp add: digit_char_def length_digits)

lemma str_nat_nonempty: "str_nat n \<noteq> []"
  by (subst str_nat.simps) simp

lemma set_str_nat: "set (str_nat n) \<subseteq> set digits"
proof (induction n rule: str_nat.induct)
  case (1 n)
  show ?case
  proof (cases "n < 10")
    case True
    then show ?thesis using digit_char_mem[of n] by (subst str_nat.simps) simp
  next
    case False
    have "n mod 10 < 10" by simp
    from digit_char_mem[OF this] 1[OF False] False show ?thesis
      by (subst str_nat.simps) simp
  qed
qed

lemma str_nat_inj: "str_nat n = str_nat m \<Longrightarrow> n = m"
proof (induction n arbitrary: m rule: str_nat.induct)
  case (1 n)
  show ?case
  proof (cases "n < 10")
    case n: True
    show ?thesis
    proof (cases "m < 10")
      case True
      with n "1.prems" show ?thesis
        by (simp add: str_nat.simps[of n] str_nat.simps[of m] digit_char_inj)
    next
      case False
      with n "1.prems" str_nat_nonempty[of "m div 10"] show ?thesis
        by (auto simp add: str_nat.simps[of n] str_nat.simps[of m])
    qed
  next
    case n: False
    show ?thesis
    proof (cases "m < 10")
      case True
      with n "1.prems" str_nat_nonempty[of "n div 10"] show ?thesis
        by (auto simp add: str_nat.simps[of n] str_nat.simps[of m])
    next
      case False
      with n "1.prems" have a: "str_nat (n div 10) = str_nat (m div 10)"
        and b: "digit_char (n mod 10) = digit_char (m mod 10)"
        by (simp_all add: str_nat.simps[of n] str_nat.simps[of m])
      from "1.IH"[OF n a] have "n div 10 = m div 10" .
      moreover from b have "n mod 10 = m mod 10" by (simp add: digit_char_inj)
      ultimately show ?thesis by (metis div_mult_mod_eq)
    qed
  qed
qed

lemma length_str_nat_1: "n < 10 \<Longrightarrow> length (str_nat n) = 1"
  by (subst str_nat.simps) simp

lemma length_str_nat_2: "n < 100 \<Longrightarrow> length (str_nat n) \<le> 2"
  by (subst str_nat.simps) (simp add: length_str_nat_1)

lemma length_str_nat_3: "n < 1000 \<Longrightarrow> length (str_nat n) \<le> 3"
  by (subst str_nat.simps) (simp add: length_str_nat_2 length_str_nat_1)

lemma length_str_nat_4: "n < 10000 \<Longrightarrow> length (str_nat n) \<le> 4"
  by (subst str_nat.simps) (simp add: length_str_nat_3 length_str_nat_1)

lemma length_rjust: "length (rjust w s) = max w (length s)"
  by (simp add: rjust_def)

lemma length_rjust_ge: "w \<le> length (rjust w s)"
  by (simp add: rjust_def)

lemma str_nonneg: "0 \<le> n \<Longrightarrow> str n = str_nat (nat n)"
  by (simp add: str_def)

lemma length_field_text: "0 \<le> n \<Longrightarrow> n < 10000 \<Longrightarrow> length (rjust 4 (str n)) = 4"
proof -
  assume a: "0 \<le> n" and b: "n < 10000"
  then have "nat n < 10000" by linarith
  then have "length (str_nat (nat n)) \<le> 4" by (rule length_str_nat_4)
  then show ?thesis by (simp add: length_rjust str_nonneg[OF a])
qed

lemma newline_notin_str: "CHR 0x0A \<notin> set (str n)"
proof (cases "n < 0")
  case True
  with set_str_nat[of "nat (- n)"] newline_notin_digits show ?thesis
    by (auto simp: str_def)
next
  case False
  with set_str_nat[of "nat n"] newline_notin_digits show ?thesis
    by (auto simp: str_def)
qed

lemma newline_notin_field_text: "CHR 0x0A \<notin> set (rjust w (str n))"
  using newline_notin_str[of n] by (auto simp: rjust_def)

lemma rjust_strip:
  assumes "s \<noteq> []" and "hd s \<noteq> CHR '' ''"
  shows "dropWhile (\<lambda>c. c = CHR '' '') (rjust w s) = s"
proof -
  from assms obtain c t where s: "s = c # t" and c: "c \<noteq> CHR '' ''" by (cases s) auto
  have "dropWhile (\<lambda>c. c = CHR '' '') (replicate (w - length s) CHR '' '' @ s)
        = dropWhile (\<lambda>c. c = CHR '' '') s"
    by (rule dropWhile_append2) simp
  then show ?thesis by (simp add: rjust_def s c)
qed

lemma hd_str_nat: "hd (str_nat n) \<noteq> CHR '' ''"
proof -
  have "hd (str_nat n) \<in> set (str_nat n)" by (simp add: str_nat_nonempty)
  with set_str_nat[of n] space_notin_digits show ?thesis by auto
qed

lemma field_text_inj:
  assumes "0 \<le> n" and "0 \<le> m" and "rjust w (str n) = rjust w (str m)"
  shows "n = m"
proof -
  from assms have "rjust w (str_nat (nat n)) = rjust w (str_nat (nat m))"
    by (simp add: str_nonneg)
  then have "dropWhile (\<lambda>c. c = CHR '' '') (rjust w (str_nat (nat n)))
           = dropWhile (\<lambda>c. c = CHR '' '') (rjust w (str_nat (nat m)))" by simp
  then have "str_nat (nat n) = str_nat (nat m)"
    by (simp add: rjust_strip str_nat_nonempty hd_str_nat)
  then have "nat n = nat m" by (rule str_nat_inj)
  with assms show ?thesis by simp
qed

section \<open>Facts about the renumbering loop\<close>

lemma startswith_Cons: "startswith l (c # p) \<Longrightarrow> \<exists>t. l = c # t"
  by (cases l) (simp_all add: startswith_def)

lemma atom_not_ter: "startswith l ''ATOM'' \<Longrightarrow> \<not> startswith l ''TER''"
proof
  assume a: "startswith l ''ATOM''" and t: "startswith l ''TER''"
  from startswith_Cons[OF a] startswith_Cons[OF t] show False by auto
qed

lemma step_atom:
  "startswith l ''ATOM'' \<Longrightarrow>
   renumber_step st l =
     (let st' = (if Some (slice 22 26 l) \<noteq> current_residue st
                 then st\<lparr>current_residue := Some (slice 22 26 l),
                         current_residue_number := current_residue_number st + 1\<rparr>
                 else st)
      in (st', take 22 l @ rjust 4 (str (current_residue_number st')) @ drop 26 l))"
  by (simp add: renumber_step_def atom_not_ter Let_def)

lemma step_ter:
  "startswith l ''TER'' \<Longrightarrow>
   renumber_step st l =
     (st\<lparr>current_residue := Some (slice 22 26 l)\<rparr>,
      take 22 l @ rjust 4 (str (current_residue_number st)) @ drop 26 l)"
  using atom_not_ter[of l] by (auto simp add: renumber_step_def Let_def)

lemma step_other:
  "\<not> startswith l ''ATOM'' \<Longrightarrow> \<not> startswith l ''TER'' \<Longrightarrow> renumber_step st l = (st, l)"
  by (simp add: renumber_step_def)

lemma renumber_lines_append:
  "renumber_lines st (xs @ ys) = renumber_lines st xs @ renumber_lines (state_after st xs) ys"
  by (induction xs arbitrary: st) (auto split: prod.splits)

lemma length_renumber_lines: "length (renumber_lines st xs) = length xs"
  by (induction xs arbitrary: st) (auto split: prod.splits)

lemma state_after_append: "state_after st (xs @ ys) = state_after (state_after st xs) ys"
  by (induction xs arbitrary: st) auto

lemma startswith_length: "startswith l p \<Longrightarrow> length p \<le> length l"
proof -
  assume "startswith l p"
  then have "length (take (length p) l) = length p" by (simp add: startswith_def)
  then show ?thesis by simp
qed

lemma startswith_take_append:
  assumes "startswith l p" and "length p \<le> n"
  shows "startswith (take n l @ x) p"
proof -
  from assms have "length p \<le> length (take n l)"
    using startswith_length[OF assms(1)] by simp
  then have "take (length p) (take n l @ x) = take (length p) (take n l)" by simp
  also have "\<dots> = take (length p) l" using assms(2) by (simp add: take_take min_def)
  also have "\<dots> = p" using assms(1) by (simp add: startswith_def)
  finally show ?thesis by (simp add: startswith_def)
qed

lemma step_out_record:
  assumes "startswith l ''ATOM'' \<or> startswith l ''TER''"
  shows "snd (renumber_step st l) =
         take 22 l @ rjust 4 (str (current_residue_number (fst (renumber_step st l)))) @ drop 26 l"
  using assms by (auto simp: step_atom step_ter Let_def)

lemma step_kind:
  "startswith (snd (renumber_step st l)) ''ATOM'' = startswith l ''ATOM'' \<and>
   startswith (snd (renumber_step st l)) ''TER'' = startswith l ''TER''"
proof (cases "startswith l ''ATOM''")
  case True
  then have "startswith (snd (renumber_step st l)) ''ATOM''"
    by (simp add: step_out_record startswith_take_append)
  with True atom_not_ter show ?thesis by blast
next
  case False
  show ?thesis
  proof (cases "startswith l ''TER''")
    case True
    then have "startswith (snd (renumber_step st l)) ''TER''"
      by (simp add: step_out_record startswith_take_append)
    with True False atom_not_ter show ?thesis by blast
  next
    case t: False
    with False show ?thesis by (simp add: step_other)
  qed
qed

lemma step_counter:
  "current_residue_number (fst (renumber_step st l)) =
     (if startswith l ''ATOM'' \<and> current_residue st \<noteq> Some (slice 22 26 l)
      then current_residue_number st + 1 else current_residue_number st)"
proof (cases "startswith l ''ATOM''")
  case True
  then show ?thesis by (auto simp: step_atom Let_def)
next
  case False
  then show ?thesis by (cases "startswith l ''TER''") (simp_all add: step_ter step_other)
qed

lemma step_current:
  "current_residue (fst (renumber_step st l)) =
     (if startswith l ''ATOM'' \<or> startswith l ''TER'' then Some (slice 22 26 l)
      else current_residue st)"
proof (cases "startswith l ''ATOM''")
  case True
  then show ?thesis by (auto simp: step_atom Let_def)
next
  case False
  then show ?thesis by (cases "startswith l ''TER''") (simp_all add: step_ter step_other)
qed

lemma counter_bounds:
  "current_residue_number st \<le> current_residue_number (state_after st ls) \<and>
   current_residue_number (state_after st ls) \<le>
     current_residue_number st + int (length (filter (\<lambda>l. startswith l ''ATOM'') ls))"
proof (induction ls arbitrary: st)
  case Nil
  show ?case by simp
next
  case (Cons l ls)
  from Cons.IH[of "fst (renumber_step st l)"] show ?case
    by (simp add: step_counter split: if_splits)
qed

lemma nth_renumber_lines:
  "i < length ls \<Longrightarrow>
   renumber_lines st ls ! i = snd (renumber_step (state_after st (take i ls)) (ls ! i))"
proof (induction ls arbitrary: st i)
  case Nil
  then show ?case by simp
next
  case (Cons l ls)
  then show ?case by (cases i) (auto split: prod.splits)
qed

lemma state_after_snoc:
  "state_after st (ls @ [l]) = fst (renumber_step (state_after st ls) l)"
  by (simp add: state_after_append)

lemma state_after_take_Suc:
  "i < length ls \<Longrightarrow>
   state_after st (take (Suc i) ls) = fst (renumber_step (state_after st (take i ls)) (ls ! i))"
  by (simp add: take_Suc_conv_app_nth state_after_snoc)

lemma field_width:
  assumes "26 \<le> length l" and "length f = 4"
  shows "length (take 22 l @ f @ drop 26 l) = length l"
    and "take 22 (take 22 l @ f @ drop 26 l) = take 22 l"
    and "drop 26 (take 22 l @ f @ drop 26 l) = drop 26 l"
    and "slice 22 26 (take 22 l @ f @ drop 26 l) = f"
  using assms by (simp_all add: slice_def)

lemma renumber_lines_Cons:
  "renumber_lines st (l # rest) =
     snd (renumber_step st l) # renumber_lines (fst (renumber_step st l)) rest"
  by (simp split: prod.splits)




lemma state_same_current:
  "current_residue st = Some f \<Longrightarrow> st\<lparr>current_residue := Some f\<rparr> = st"
  by simp





section \<open>Reading and writing lines\<close>

lemma readlines_nonempty: "s \<noteq> [] \<Longrightarrow> readlines s \<noteq> []"
  by (cases s) (auto split: list.splits)

lemma lines_ok_Cons:
  "lines_ok (l # ls) =
     (l \<noteq> [] \<and> CHR 0x0A \<notin> set (butlast l) \<and> (ls \<noteq> [] \<longrightarrow> last l = CHR 0x0A) \<and> lines_ok ls)"
  by (cases ls) auto

lemma lines_ok_readlines: "lines_ok (readlines s)"
proof (induction s)
  case Nil
  show ?case by simp
next
  case (Cons c cs)
  show ?case
  proof (cases "c = CHR 0x0A")
    case True
    with Cons show ?thesis by (simp add: lines_ok_Cons)
  next
    case False
    show ?thesis
    proof (cases "readlines cs")
      case Nil
      with False show ?thesis by simp
    next
      case (Cons l ls)
      with Cons.IH False show ?thesis by (simp add: lines_ok_Cons)
    qed
  qed
qed

lemma readlines_terminated:
  "l \<noteq> [] \<Longrightarrow> CHR 0x0A \<notin> set (butlast l) \<Longrightarrow> last l = CHR 0x0A \<Longrightarrow>
   readlines (l @ s) = l # readlines s"
proof (induction l)
  case Nil
  then show ?case by simp
next
  case (Cons c t)
  show ?case
  proof (cases "t = []")
    case True
    with Cons.prems show ?thesis by simp
  next
    case False
    with Cons.prems have "c \<noteq> CHR 0x0A" "CHR 0x0A \<notin> set (butlast t)" "last t = CHR 0x0A"
      by auto
    with Cons.IH False show ?thesis by simp
  qed
qed

lemma readlines_single:
  "l \<noteq> [] \<Longrightarrow> CHR 0x0A \<notin> set (butlast l) \<Longrightarrow> readlines l = [l]"
proof (induction l)
  case Nil
  then show ?case by simp
next
  case (Cons c t)
  show ?case
  proof (cases "t = []")
    case True
    then show ?thesis by simp
  next
    case False
    with Cons.prems have "c \<noteq> CHR 0x0A" "CHR 0x0A \<notin> set (butlast t)" by auto
    with Cons.IH False show ?thesis by simp
  qed
qed

lemma readlines_concat: "lines_ok ls \<Longrightarrow> readlines (concat ls) = ls"
proof (induction ls rule: lines_ok.induct)
  case 1
  show ?case by simp
next
  case (2 l)
  then show ?case by (simp add: readlines_single)
next
  case (3 l m ms)
  then have "readlines (l @ concat (m # ms)) = l # readlines (concat (m # ms))"
    by (intro readlines_terminated) simp_all
  with 3 show ?case by simp
qed

section \<open>A second pass over the output\<close>

lemma idem_step:
  assumes wide: "startswith l ''ATOM'' \<or> startswith l ''TER'' \<longrightarrow> 26 \<le> length l"
    and lo: "0 \<le> current_residue_number st"
    and hi: "current_residue_number st + (if startswith l ''ATOM'' then 1 else 0) < 10000"
    and fol: "follows st st2"
  shows "snd (renumber_step st2 (snd (renumber_step st l))) = snd (renumber_step st l) \<and>
         follows (fst (renumber_step st l)) (fst (renumber_step st2 (snd (renumber_step st l))))"
proof (cases "startswith l ''ATOM'' \<or> startswith l ''TER''")
  case False
  then show ?thesis using fol by (simp add: step_other)
next
  case True
  define st' where "st' = fst (renumber_step st l)"
  define out where "out = snd (renumber_step st l)"
  define n where "n = current_residue_number st"
  define n' where "n' = current_residue_number st'"
  have n'_cases: "n' = n \<or> n' = n + 1"
    by (simp add: n'_def n_def st'_def step_counter)
  have "n' \<le> n + (if startswith l ''ATOM'' then 1 else 0)"
    by (simp add: n'_def n_def st'_def step_counter)
  with n'_cases lo hi have n'_range: "0 \<le> n'" "n' < 10000" by (auto simp: n_def)
  have f4: "length (rjust 4 (str n')) = 4" using n'_range by (rule length_field_text)
  have len: "26 \<le> length l" using wide True by simp
  have out: "out = take 22 l @ rjust 4 (str n') @ drop 26 l"
    using step_out_record[OF True, of st] by (simp add: out_def n'_def st'_def)
  have field: "slice 22 26 out = rjust 4 (str n')"
    unfolding out using field_width(4)[OF len f4] .
  have t22: "take 22 out = take 22 l" unfolding out using field_width(2)[OF len f4] .
  have d26: "drop 26 out = drop 26 l" unfolding out using field_width(3)[OF len f4] .
  have kind: "startswith out ''ATOM'' = startswith l ''ATOM''"
             "startswith out ''TER'' = startswith l ''TER''"
    by (simp_all add: out_def step_kind)
  have rec_out: "startswith out ''ATOM'' \<or> startswith out ''TER''" using True kind by simp
  have cur': "current_residue st' = Some (slice 22 26 l)"
    using True by (simp add: st'_def step_current)
  have cur2': "current_residue (fst (renumber_step st2 out)) = Some (rjust 4 (str n'))"
    using rec_out by (simp add: step_current field)
  have num2': "current_residue_number (fst (renumber_step st2 out)) = n'"
  proof (cases "startswith l ''ATOM''")
    case False
    then have "n' = n" by (simp add: n'_def n_def st'_def step_counter)
    moreover from False kind have "current_residue_number (fst (renumber_step st2 out)) = n"
      using fol by (simp add: step_counter follows_def n_def)
    ultimately show ?thesis by simp
  next
    case atom: True
    show ?thesis
    proof (cases "current_residue st")
      case None
      then have "n' = n + 1" using atom by (simp add: n'_def n_def st'_def step_counter)
      moreover from None fol have "current_residue st2 = None" by (simp add: follows_def)
      then have "current_residue_number (fst (renumber_step st2 out)) = n + 1"
        using atom kind fol by (simp add: step_counter follows_def n_def)
      ultimately show ?thesis by simp
    next
      case (Some c)
      with fol have c2: "current_residue st2 = Some (rjust 4 (str n))"
        by (simp add: follows_def n_def)
      have n2: "current_residue_number st2 = n" using fol by (simp add: follows_def n_def)
      have "current_residue_number (fst (renumber_step st2 out)) =
              (if rjust 4 (str n) \<noteq> rjust 4 (str n') then n + 1 else n)"
        using atom kind by (simp add: step_counter c2 n2 field)
      moreover have "rjust 4 (str n) = rjust 4 (str n') \<longleftrightarrow> n = n'"
        using field_text_inj[of n n' 4] lo n'_range by (auto simp: n_def)
      ultimately show ?thesis using n'_cases by auto
    qed
  qed
  have "snd (renumber_step st2 out) =
          take 22 out @
          rjust 4 (str (current_residue_number (fst (renumber_step st2 out)))) @ drop 26 out"
    by (rule step_out_record[OF rec_out])
  also have "\<dots> = take 22 l @ rjust 4 (str n') @ drop 26 l"
    by (simp only: num2' t22 d26)
  also have "\<dots> = out" by (simp only: out)
  finally have "snd (renumber_step st2 out) = out" .
  moreover have "follows st' (fst (renumber_step st2 out))"
    by (simp add: follows_def num2' cur2' cur' n'_def)
  ultimately show ?thesis by (simp add: out_def st'_def)
qed

lemma idem_lines:
  assumes "\<forall>l\<in>set ls. startswith l ''ATOM'' \<or> startswith l ''TER'' \<longrightarrow> 26 \<le> length l"
    and "0 \<le> current_residue_number st"
    and "current_residue_number st + int (length (filter (\<lambda>l. startswith l ''ATOM'') ls)) < 10000"
    and "follows st st2"
  shows "renumber_lines st2 (renumber_lines st ls) = renumber_lines st ls"
  using assms
proof (induction ls arbitrary: st st2)
  case Nil
  show ?case by simp
next
  case (Cons l ls)
  define st' where "st' = fst (renumber_step st l)"
  define out where "out = snd (renumber_step st l)"
  define st2' where "st2' = fst (renumber_step st2 out)"
  have wide: "startswith l ''ATOM'' \<or> startswith l ''TER'' \<longrightarrow> 26 \<le> length l"
    using Cons.prems(1) by simp
  have hi: "current_residue_number st + (if startswith l ''ATOM'' then 1 else 0) < 10000"
    using Cons.prems(3) by (simp split: if_splits)
  from idem_step[OF wide Cons.prems(2) hi Cons.prems(4)]
  have o: "snd (renumber_step st2 out) = out" and f: "follows st' st2'"
    by (simp_all add: out_def st'_def st2'_def)
  have c: "current_residue_number st' =
      (if startswith l ''ATOM'' \<and> current_residue st \<noteq> Some (slice 22 26 l)
       then current_residue_number st + 1 else current_residue_number st)"
    by (simp add: st'_def step_counter)
  have lo': "0 \<le> current_residue_number st'" using Cons.prems(2) c by simp
  have hi': "current_residue_number st' +
      int (length (filter (\<lambda>l. startswith l ''ATOM'') ls)) < 10000"
    using Cons.prems(3) c by (simp split: if_splits)
  have w': "\<forall>l\<in>set ls. startswith l ''ATOM'' \<or> startswith l ''TER'' \<longrightarrow> 26 \<le> length l"
    using Cons.prems(1) by simp
  have "renumber_lines st2' (renumber_lines st' ls) = renumber_lines st' ls"
    by (rule Cons.IH[OF w' lo' hi' f])
  then show ?case
    by (simp add: renumber_lines_Cons out_def[symmetric] st'_def[symmetric] o
        st2'_def[symmetric] del: renumber_lines.simps)
qed

lemma follows_initial: "follows initial_state initial_state"
  by (simp add: follows_def initial_state_def)

lemma renumber_idem:
  assumes "\<forall>l\<in>set ls. startswith l ''ATOM'' \<or> startswith l ''TER'' \<longrightarrow> 26 \<le> length l"
    and "length (filter (\<lambda>l. startswith l ''ATOM'') ls) < 10000"
  shows "renumber (renumber ls) = renumber ls"
  unfolding renumber_def
  using assms by (intro idem_lines follows_initial) (simp_all add: initial_state_def)

lemma step_line_ok:
  assumes "l \<noteq> []" and "CHR 0x0A \<notin> set (butlast l)"
    and "startswith l ''ATOM'' \<or> startswith l ''TER'' \<longrightarrow>
           26 \<le> length l \<and> CHR 0x0A \<notin> set (take 26 l)"
  shows "snd (renumber_step st l) \<noteq> [] \<and>
         CHR 0x0A \<notin> set (butlast (snd (renumber_step st l))) \<and>
         (last l = CHR 0x0A \<longrightarrow> last (snd (renumber_step st l)) = CHR 0x0A)"
proof (cases "startswith l ''ATOM'' \<or> startswith l ''TER''")
  case False
  with assms show ?thesis by (simp add: step_other)
next
  case True
  define f where "f = rjust 4 (str (current_residue_number (fst (renumber_step st l))))"
  have out: "snd (renumber_step st l) = take 22 l @ f @ drop 26 l"
    using step_out_record[OF True, of st] by (simp add: f_def)
  have "4 \<le> length f" unfolding f_def by (rule length_rjust_ge)
  then have fne: "f \<noteq> []" by auto
  have fnl: "CHR 0x0A \<notin> set f" by (simp add: f_def newline_notin_field_text)
  from assms(3) True have len: "26 \<le> length l" and nl: "CHR 0x0A \<notin> set (take 26 l)"
    by simp_all
  have nl22: "CHR 0x0A \<notin> set (take 22 l)"
  proof
    assume "CHR 0x0A \<in> set (take 22 l)"
    then have "CHR 0x0A \<in> set (take 22 (take 26 l))" by (simp add: take_take)
    then have "CHR 0x0A \<in> set (take 26 l)" by (rule in_set_takeD)
    with nl show False by simp
  qed
  show ?thesis
  proof (cases "drop 26 l = []")
    case True
    then have "length l = 26" using len by simp
    then have "take 26 l = l" by simp
    with nl have nin: "CHR 0x0A \<notin> set l" by simp
    have lin: "last l \<in> set l" using assms(1) by (rule last_in_set)
    have last_l: "last l \<noteq> CHR 0x0A"
    proof
      assume "last l = CHR 0x0A"
      with lin have "CHR 0x0A \<in> set l" by (simp only:)
      with nin show False by (rule notE)
    qed
    have o: "snd (renumber_step st l) = take 22 l @ f"
      unfolding out True by (rule arg_cong[where f="\<lambda>x. take 22 l @ x"]) simp
    have b: "butlast (take 22 l @ f) = take 22 l @ butlast f"
      using fne by (simp add: butlast_append)
    have "CHR 0x0A \<notin> set (butlast f)"
      using fnl by (blast dest: in_set_butlastD)
    with nl22 have c: "CHR 0x0A \<notin> set (butlast (take 22 l @ f))"
      unfolding b by simp
    have d: "take 22 l @ f \<noteq> []" using fne by simp
    from c d last_l show ?thesis unfolding o by blast
  next
    case False
    have "butlast (drop 26 l) = drop 26 (butlast l)" by (rule butlast_drop)
    then have e: "CHR 0x0A \<notin> set (butlast (drop 26 l))"
      using assms(2) by (auto dest: in_set_dropD)
    have b: "butlast (take 22 l @ f @ drop 26 l) = take 22 l @ f @ butlast (drop 26 l)"
      using False by (simp add: butlast_append)
    have c: "CHR 0x0A \<notin> set (butlast (take 22 l @ f @ drop 26 l))"
      unfolding b using e nl22 fnl by simp
    have "last (take 22 l @ f @ drop 26 l) = last (drop 26 l)"
      using False by simp
    also have "\<dots> = last l" using False by (simp add: last_drop)
    finally have g: "last (take 22 l @ f @ drop 26 l) = last l" .
    have d: "take 22 l @ f @ drop 26 l \<noteq> []" using fne by simp
    from c d g show ?thesis unfolding out by simp
  qed
qed

lemma lines_ok_renumber_lines:
  assumes "lines_ok ls"
    and "\<forall>l\<in>set ls. startswith l ''ATOM'' \<or> startswith l ''TER'' \<longrightarrow>
           26 \<le> length l \<and> CHR 0x0A \<notin> set (take 26 l)"
  shows "lines_ok (renumber_lines st ls)"
  using assms
proof (induction ls arbitrary: st)
  case Nil
  show ?case by simp
next
  case (Cons l ls)
  from Cons.prems have ok: "l \<noteq> []" "CHR 0x0A \<notin> set (butlast l)"
    "ls \<noteq> [] \<longrightarrow> last l = CHR 0x0A" "lines_ok ls"
    by (simp_all add: lines_ok_Cons)
  from Cons.prems(2) have w: "startswith l ''ATOM'' \<or> startswith l ''TER'' \<longrightarrow>
           26 \<le> length l \<and> CHR 0x0A \<notin> set (take 26 l)" by simp
  from Cons.prems(2) have w': "\<forall>l\<in>set ls. startswith l ''ATOM'' \<or> startswith l ''TER'' \<longrightarrow>
           26 \<le> length l \<and> CHR 0x0A \<notin> set (take 26 l)" by simp
  have ne: "renumber_lines (fst (renumber_step st l)) ls \<noteq> [] \<longleftrightarrow> ls \<noteq> []"
    using length_renumber_lines[of "fst (renumber_step st l)" ls] by (cases ls) auto
  from step_line_ok[OF ok(1,2) w, of st] ok(3) Cons.IH[OF ok(4) w', of "fst (renumber_step st l)"]
  show ?case
    by (simp add: renumber_lines_Cons lines_ok_Cons ne del: renumber_lines.simps)
qed

section \<open>Facts about the segmenter's loops\<close>

lemma inner_loop_replicate:
  "inner_loop d p cid start = replicate 8 (save_window d p cid start)"
proof -
  have "length [start..start + 8 - 1] = 8" by simp
  then show ?thesis
    unfolding inner_loop_def by (simp only: map_replicate_const)
qed

lemma save_window_sel:
  "sel_start (selection (save_window d p cid start)) = start"
  "sel_end (selection (save_window d p cid start)) = start + 8"
  "sel_chain_id (selection (save_window d p cid start)) = cid"
  "sel_model_id (selection (save_window d p cid start)) = 0"
  by (simp_all add: save_window_def ChainSelector_def)

lemma residue_loop_Cons:
  "residue_loop d p cid len start (r # rs) =
     (if start + 1 + 8 > len then (start + 1, [])
      else (fst (residue_loop d p cid len (start + 1) rs),
            inner_loop d p cid (start + 1) @ snd (residue_loop d p cid len (start + 1) rs)))"
  by (simp add: Let_def split: prod.splits)

lemma chain_loop_Cons:
  "chain_loop d p start (c # cs) =
     (fst (chain_loop d p
            (fst (residue_loop d p (chain_id c) (int (length (residues c))) start (residues c))) cs),
      snd (residue_loop d p (chain_id c) (int (length (residues c))) start (residues c)) #
      snd (chain_loop d p
            (fst (residue_loop d p (chain_id c) (int (length (residues c))) start (residues c))) cs))"
  by (simp add: Let_def split: prod.splits)

lemma model_loop_Cons:
  "model_loop d p start (m # ms) =
     (fst (model_loop d p (fst (chain_loop d p start (chains m))) ms),
      snd (chain_loop d p start (chains m)) #
      snd (model_loop d p (fst (chain_loop d p start (chains m))) ms))"
  by (simp add: Let_def split: prod.splits)

lemma residue_loop_start: "start \<le> fst (residue_loop d p cid len start rs)"
proof (induction rs arbitrary: start)
  case Nil
  show ?case by simp
next
  case (Cons r rs)
  from Cons[of "start + 1"] show ?case by (simp add: residue_loop_Cons del: residue_loop.simps(2))
qed

lemma residue_loop_calls:
  "call \<in> set (snd (residue_loop d p cid len start rs)) \<Longrightarrow>
   start < sel_start (selection call) \<and>
   sel_start (selection call) + 8 \<le> len \<and>
   sel_end (selection call) = sel_start (selection call) + 8 \<and>
   sel_chain_id (selection call) = cid \<and>
   sel_model_id (selection call) = 0"
proof (induction rs arbitrary: start)
  case Nil
  then show ?case by simp
next
  case (Cons r rs)
  show ?case
  proof (cases "start + 1 + 8 > len")
    case True
    with Cons.prems show ?thesis by (simp add: residue_loop_Cons del: residue_loop.simps(2))
  next
    case False
    with Cons.prems have "call = save_window d p cid (start + 1) \<or>
        call \<in> set (snd (residue_loop d p cid len (start + 1) rs))"
      by (auto simp add: residue_loop_Cons inner_loop_replicate simp del: residue_loop.simps(2))
    then show ?thesis
    proof
      assume "call = save_window d p cid (start + 1)"
      with False show ?thesis by (simp add: save_window_sel)
    next
      assume "call \<in> set (snd (residue_loop d p cid len (start + 1) rs))"
      from Cons.IH[OF this] show ?thesis by simp
    qed
  qed
qed

lemma chain_loop_start: "start \<le> fst (chain_loop d p start cs)"
proof (induction cs arbitrary: start)
  case Nil
  show ?case by simp
next
  case (Cons c cs)
  have "start \<le> fst (residue_loop d p (chain_id c) (int (length (residues c))) start (residues c))"
    by (rule residue_loop_start)
  also have "\<dots> \<le> fst (chain_loop d p \<dots> cs)" by (rule Cons.IH)
  finally show ?case by (simp add: chain_loop_Cons del: chain_loop.simps(2))
qed

lemma length_chain_loop: "length (snd (chain_loop d p start cs)) = length cs"
  by (induction cs arbitrary: start) (simp_all add: chain_loop_Cons del: chain_loop.simps(2))

lemma length_model_loop: "length (snd (model_loop d p start ms)) = length ms"
  by (induction ms arbitrary: start) (simp_all add: model_loop_Cons del: model_loop.simps(2))

lemma chain_loop_calls:
  "0 \<le> start \<Longrightarrow> i < length cs \<Longrightarrow> call \<in> set (snd (chain_loop d p start cs) ! i) \<Longrightarrow>
   1 \<le> sel_start (selection call) \<and>
   sel_start (selection call) + 8 \<le> int (length (residues (cs ! i))) \<and>
   sel_end (selection call) = sel_start (selection call) + 8 \<and>
   sel_chain_id (selection call) = chain_id (cs ! i) \<and>
   sel_model_id (selection call) = 0"
proof (induction cs arbitrary: start i)
  case Nil
  then show ?case by simp
next
  case (Cons c cs)
  show ?case
  proof (cases i)
    case 0
    with Cons.prems have
      "call \<in> set (snd (residue_loop d p (chain_id c) (int (length (residues c))) start (residues c)))"
      by (simp add: chain_loop_Cons del: chain_loop.simps(2))
    from residue_loop_calls[OF this] Cons.prems(1) 0 show ?thesis by simp
  next
    case (Suc j)
    define s1 where
      "s1 = fst (residue_loop d p (chain_id c) (int (length (residues c))) start (residues c))"
    have "start \<le> s1" unfolding s1_def by (rule residue_loop_start)
    with Cons.prems(1) have s1: "0 \<le> s1" by simp
    from Suc Cons.prems have j: "j < length cs"
      and c: "call \<in> set (snd (chain_loop d p s1 cs) ! j)"
      by (simp_all add: chain_loop_Cons s1_def del: chain_loop.simps(2))
    from Cons.IH[OF s1 j c] Suc show ?thesis by simp
  qed
qed

lemma model_loop_calls:
  "0 \<le> start \<Longrightarrow> m < length ms \<Longrightarrow> i < length (chains (ms ! m)) \<Longrightarrow>
   call \<in> set (snd (model_loop d p start ms) ! m ! i) \<Longrightarrow>
   1 \<le> sel_start (selection call) \<and>
   sel_start (selection call) + 8 \<le> int (length (residues (chains (ms ! m) ! i))) \<and>
   sel_end (selection call) = sel_start (selection call) + 8 \<and>
   sel_chain_id (selection call) = chain_id (chains (ms ! m) ! i) \<and>
   sel_model_id (selection call) = 0"
proof (induction ms arbitrary: start m)
  case Nil
  then show ?case by simp
next
  case (Cons x ms)
  show ?case
  proof (cases m)
    case 0
    with Cons.prems have i: "i < length (chains x)"
      and c: "call \<in> set (snd (chain_loop d p start (chains x)) ! i)"
      by (simp_all add: model_loop_Cons del: model_loop.simps(2))
    from chain_loop_calls[OF Cons.prems(1) i c] 0 show ?thesis by simp
  next
    case (Suc j)
    define s1 where "s1 = fst (chain_loop d p start (chains x))"
    have "start \<le> s1" unfolding s1_def by (rule chain_loop_start)
    with Cons.prems(1) have s1: "0 \<le> s1" by simp
    from Suc Cons.prems have j: "j < length ms" and i: "i < length (chains (ms ! j))"
      and c: "call \<in> set (snd (model_loop d p s1 ms) ! j ! i)"
      by (simp_all add: model_loop_Cons s1_def del: model_loop.simps(2))
    from Cons.IH[OF s1 j i c] Suc show ?thesis by simp
  qed
qed

lemma residue_loop_windows:
  "snd (residue_loop d p cid len s rs) =
     concat (map (inner_loop d p cid) [s + 1 .. min (len - 8) (s + int (length rs))])"
proof (induction rs arbitrary: s)
  case Nil
  show ?case by simp
next
  case (Cons r rs)
  show ?case
  proof (cases "s + 1 + 8 > len")
    case True
    then show ?thesis by (simp add: residue_loop_Cons del: residue_loop.simps(2))
  next
    case False
    have e: "s + int (length (r # rs)) = s + 1 + int (length rs)" by simp
    from False have "s + 1 \<le> min (len - 8) (s + 1 + int (length rs))" by simp
    then have "[s + 1 .. min (len - 8) (s + int (length (r # rs)))] =
        (s + 1) # [s + 1 + 1 .. min (len - 8) (s + 1 + int (length rs))]"
      unfolding e by (rule upto_rec1)
    with False Cons.IH[of "s + 1"] show ?thesis
      by (simp add: residue_loop_Cons del: residue_loop.simps(2))
  qed
qed

lemma first_chain_windows:
  "split_file d p (\<lparr>model_id = mid, chains = c # cs\<rparr> # ms) ! 0 ! 0 =
     concat (map (inner_loop d p (chain_id c)) [1 .. int (length (residues c)) - 8])"
  by (simp add: split_file_def model_loop_Cons chain_loop_Cons residue_loop_windows
      del: model_loop.simps(2) chain_loop.simps(2))

lemma apply_saves_append:
  "apply_saves ser fs (xs @ ys) = apply_saves ser (apply_saves ser fs xs) ys"
  by (induction xs arbitrary: fs) simp_all

lemma apply_saves_replicate:
  "apply_saves ser fs (replicate (Suc n) c) = fs(file_save c \<mapsto> ser (selection c))"
  by (induction n arbitrary: fs) simp_all

lemma apply_saves_inner_loop:
  "apply_saves ser fs (inner_loop d p cid start) = apply_saves ser fs [save_window d p cid start]"
proof -
  have "inner_loop d p cid start = replicate (Suc 7) (save_window d p cid start)"
    by (simp add: inner_loop_replicate)
  then show ?thesis by (simp only: apply_saves_replicate) simp
qed

lemma residue_loop_once_Cons:
  "residue_loop_once d p cid len start (r # rs) =
     (if start + 1 + 8 > len then (start + 1, [])
      else (fst (residue_loop_once d p cid len (start + 1) rs),
            save_window d p cid (start + 1) # snd (residue_loop_once d p cid len (start + 1) rs)))"
  by (simp add: Let_def split: prod.splits)

lemma chain_loop_once_Cons:
  "chain_loop_once d p start (c # cs) =
     (fst (chain_loop_once d p
            (fst (residue_loop_once d p (chain_id c) (int (length (residues c))) start (residues c))) cs),
      snd (residue_loop_once d p (chain_id c) (int (length (residues c))) start (residues c)) #
      snd (chain_loop_once d p
            (fst (residue_loop_once d p (chain_id c) (int (length (residues c))) start (residues c))) cs))"
  by (simp add: Let_def split: prod.splits)

lemma model_loop_once_Cons:
  "model_loop_once d p start (m # ms) =
     (fst (model_loop_once d p (fst (chain_loop_once d p start (chains m))) ms),
      snd (chain_loop_once d p start (chains m)) #
      snd (model_loop_once d p (fst (chain_loop_once d p start (chains m))) ms))"
  by (simp add: Let_def split: prod.splits)

lemma residue_loop_once_start:
  "fst (residue_loop_once d p cid len s rs) = fst (residue_loop d p cid len s rs)"
proof (induction rs arbitrary: s)
  case Nil
  show ?case by simp
next
  case (Cons r rs)
  from Cons[of "s + 1"] show ?case
    by (simp add: residue_loop_Cons residue_loop_once_Cons
        del: residue_loop.simps(2) residue_loop_once.simps(2))
qed

lemma residue_loop_once_saves:
  "apply_saves ser fs (snd (residue_loop_once d p cid len s rs)) =
   apply_saves ser fs (snd (residue_loop d p cid len s rs))"
proof (induction rs arbitrary: s fs)
  case Nil
  show ?case by simp
next
  case (Cons r rs)
  show ?case
  proof (cases "s + 1 + 8 > len")
    case True
    then show ?thesis
      by (simp add: residue_loop_Cons residue_loop_once_Cons
          del: residue_loop.simps(2) residue_loop_once.simps(2))
  next
    case False
    define w where "w = save_window d p cid (s + 1)"
    have "apply_saves ser fs (snd (residue_loop_once d p cid len s (r # rs))) =
            apply_saves ser fs ([w] @ snd (residue_loop_once d p cid len (s + 1) rs))"
      using False by (simp only: residue_loop_once_Cons w_def snd_conv if_False append_Cons append_Nil)
    also have "\<dots> = apply_saves ser (apply_saves ser fs [w])
                          (snd (residue_loop_once d p cid len (s + 1) rs))"
      by (rule apply_saves_append)
    also have "\<dots> = apply_saves ser (apply_saves ser fs [w])
                          (snd (residue_loop d p cid len (s + 1) rs))"
      by (rule Cons.IH)
    also have "\<dots> = apply_saves ser (apply_saves ser fs (inner_loop d p cid (s + 1)))
                          (snd (residue_loop d p cid len (s + 1) rs))"
      by (simp only: apply_saves_inner_loop w_def)
    also have "\<dots> = apply_saves ser fs
        (inner_loop d p cid (s + 1) @ snd (residue_loop d p cid len (s + 1) rs))"
      by (rule apply_saves_append[symmetric])
    also have "\<dots> = apply_saves ser fs (snd (residue_loop d p cid len s (r # rs)))"
      using False by (simp only: residue_loop_Cons snd_conv if_False)
    finally show ?thesis .
  qed
qed

lemma chain_loop_once_start:
  "fst (chain_loop_once d p s cs) = fst (chain_loop d p s cs)"
proof (induction cs arbitrary: s)
  case Nil
  show ?case by simp
next
  case (Cons c cs)
  show ?case
    by (simp only: chain_loop_Cons chain_loop_once_Cons fst_conv residue_loop_once_start Cons)
qed

lemma chain_loop_once_saves:
  "apply_saves ser fs (concat (snd (chain_loop_once d p s cs))) =
   apply_saves ser fs (concat (snd (chain_loop d p s cs)))"
proof (induction cs arbitrary: s fs)
  case Nil
  show ?case by simp
next
  case (Cons c cs)
  show ?case
    by (simp only: chain_loop_Cons chain_loop_once_Cons snd_conv concat.simps
        apply_saves_append residue_loop_once_start residue_loop_once_saves Cons)
qed

lemma model_loop_once_saves:
  "apply_saves ser fs (concat (concat (snd (model_loop_once d p s ms)))) =
   apply_saves ser fs (concat (concat (snd (model_loop d p s ms))))"
proof (induction ms arbitrary: s fs)
  case Nil
  show ?case by simp
next
  case (Cons m ms)
  show ?case
    by (simp only: model_loop_Cons model_loop_once_Cons snd_conv concat.simps concat_append
        apply_saves_append chain_loop_once_start chain_loop_once_saves Cons)
qed

section \<open>Residues numbered like their positions\<close>

lemma strictly_increasing_range:
  assumes "sorted_wrt (<) xs" and "set xs \<subseteq> {a..b}" and "int (length xs) = b - a + 1"
  shows "xs = [a..b]"
proof -
  from assms(1) have s: "sorted xs" and d: "distinct xs"
    by (simp_all add: strict_sorted_iff)
  from d have "card (set xs) = length xs" by (rule distinct_card)
  also from assms(3) have "\<dots> = card {a..b}" by simp
  finally have "card (set xs) = card {a..b}" .
  with assms(2) have "set xs = {a..b}" by (intro card_subset_eq) simp_all
  then have "set xs = set [a..b]" by simp
  with s d show ?thesis by (intro sorted_distinct_set_unique) simp_all
qed

lemma ordinal_window_iff:
  fixes rs :: "residue list"
  assumes inc: "sorted_wrt (<) (map res_id rs)"
    and nohet: "\<forall>r\<in>set rs. \<not> hetero r"
    and lo: "1 \<le> s" and hi: "s + 8 \<le> int (length rs)"
  shows "filter (\<lambda>r. \<not> hetero r \<and> s \<le> res_id r \<and> res_id r \<le> s + 8) rs
           = take 9 (drop (nat (s - 1)) rs)
         \<longleftrightarrow> map res_id (take 9 (drop (nat (s - 1)) rs)) = [s..s + 8]"
proof -
  define k where "k = nat (s - 1)"
  define pre where "pre = take k rs"
  define win where "win = take 9 (drop k rs)"
  define post where "post = drop 9 (drop k rs)"
  define P where "P = (\<lambda>r::residue. \<not> hetero r \<and> s \<le> res_id r \<and> res_id r \<le> s + 8)"
  have "rs = take k rs @ drop k rs" by simp
  also have "drop k rs = take 9 (drop k rs) @ drop 9 (drop k rs)"
    by (rule append_take_drop_id[symmetric])
  finally have rs: "rs = pre @ win @ post" by (simp only: pre_def win_def post_def)
  have lw: "length win = 9" using lo hi by (simp add: win_def k_def)
  have sorted_all: "sorted_wrt (<) (map res_id pre @ map res_id win @ map res_id post)"
    using inc by (simp add: rs)
  then have sw: "sorted_wrt (<) (map res_id win)"
    and pw: "\<forall>x\<in>set pre. \<forall>y\<in>set win. res_id x < res_id y"
    and wp: "\<forall>x\<in>set win. \<forall>y\<in>set post. res_id x < res_id y"
    by (auto simp add: sorted_wrt_append)
  have nh: "\<forall>r\<in>set win. \<not> hetero r" "\<forall>r\<in>set pre. \<not> hetero r" "\<forall>r\<in>set post. \<not> hetero r"
    using nohet by (auto simp add: rs)
  show ?thesis unfolding k_def[symmetric] win_def[symmetric] P_def[symmetric]
  proof
    assume f: "filter P rs = win"
    have "\<forall>r\<in>set win. P r"
    proof
      fix r assume "r \<in> set win"
      with f have "r \<in> set (filter P rs)" by simp
      then show "P r" by simp
    qed
    then have "set (map res_id win) \<subseteq> {s..s + 8}" by (auto simp: P_def)
    moreover have "int (length (map res_id win)) = s + 8 - s + 1" using lw by simp
    ultimately show "map res_id win = [s..s + 8]"
      using sw by (intro strictly_increasing_range)
  next
    assume e: "map res_id win = [s..s + 8]"
    from lw obtain w0 ws where w: "win = w0 # ws" by (cases win) auto
    from e w have first: "res_id w0 = s" by (simp add: upto_rec1)
    have "win \<noteq> []" using w by simp
    from e have "last (map res_id win) = last [s..s + 8]" by simp
    then have lastw: "res_id (last win) = s + 8"
      using \<open>win \<noteq> []\<close> by (simp add: last_map upto_rec2)
    have "\<forall>r\<in>set win. s \<le> res_id r \<and> res_id r \<le> s + 8"
    proof
      fix r assume "r \<in> set win"
      then have "res_id r \<in> set (map res_id win)" by simp
      then show "s \<le> res_id r \<and> res_id r \<le> s + 8" unfolding e by simp
    qed
    with nh(1) have fw: "filter P win = win" by (simp add: P_def)
    have "\<forall>x\<in>set pre. res_id x < s" using pw w first by auto
    then have fp: "filter P pre = []" by (auto simp: P_def filter_empty_conv)
    have "last win \<in> set win" using \<open>win \<noteq> []\<close> by simp
    with wp lastw have "\<forall>y\<in>set post. s + 8 < res_id y" by auto
    then have fq: "filter P post = []" by (auto simp: P_def filter_empty_conv)
    show "filter P rs = win" by (simp add: rs fw fp fq)
  qed
qed

section \<open>The lines of the written file\<close>

lemma counter_nonneg: "0 \<le> current_residue_number (state_after initial_state ls)"
  using counter_bounds[of initial_state ls] by (simp add: initial_state_def)

lemma record_line_written:
  assumes i: "i < length lines"
    and r: "startswith (lines ! i) ''ATOM'' \<or> startswith (lines ! i) ''TER''"
  shows "renumber lines ! i =
           take 22 (lines ! i) @
           rjust 4 (str (current_residue_number (state_after initial_state (take (Suc i) lines)))) @
           drop 26 (lines ! i)"
proof -
  have "renumber lines ! i =
          snd (renumber_step (state_after initial_state (take i lines)) (lines ! i))"
    using i by (simp add: renumber_def nth_renumber_lines)
  also have "\<dots> = take 22 (lines ! i) @
      rjust 4 (str (current_residue_number
        (fst (renumber_step (state_after initial_state (take i lines)) (lines ! i))))) @
      drop 26 (lines ! i)"
    by (rule step_out_record[OF r])
  finally show ?thesis using i by (simp only: state_after_take_Suc)
qed

lemma other_line_written:
  assumes i: "i < length lines"
    and r: "\<not> (startswith (lines ! i) ''ATOM'' \<or> startswith (lines ! i) ''TER'')"
  shows "renumber lines ! i = lines ! i"
  using i r by (simp add: renumber_def nth_renumber_lines step_other)

lemma kind_written:
  assumes i: "i < length lines"
  shows "startswith (renumber lines ! i) ''ATOM'' = startswith (lines ! i) ''ATOM''"
    and "startswith (renumber lines ! i) ''TER'' = startswith (lines ! i) ''TER''"
  using i by (simp_all add: renumber_def nth_renumber_lines step_kind)

lemma take_22_written:
  assumes "22 \<le> length l"
  shows "take 22 (take 22 l @ f @ r) = take 22 l"
  using assms by simp

lemma written_file_lines:
  assumes "\<forall>l\<in>set (readlines content).
             startswith l ''ATOM'' \<or> startswith l ''TER'' \<longrightarrow>
               26 \<le> length l \<and> CHR 0x0A \<notin> set (take 26 l)"
  shows "readlines (renumber_file content) = renumber (readlines content)"
proof -
  have "lines_ok (renumber (readlines content))"
    unfolding renumber_def using lines_ok_readlines assms by (rule lines_ok_renumber_lines)
  then show ?thesis
    by (simp only: renumber_file_def writelines_def readlines_concat)
qed

section \<open>Which call writes which file\<close>

lemma model_loop_start: "start \<le> fst (model_loop d p start ms)"
proof (induction ms arbitrary: start)
  case Nil
  show ?case by simp
next
  case (Cons x ms)
  have "start \<le> fst (chain_loop d p start (chains x))" by (rule chain_loop_start)
  also have "\<dots> \<le> fst (model_loop d p \<dots> ms)" by (rule Cons.IH)
  finally show ?case by (simp add: model_loop_Cons del: model_loop.simps(2))
qed

lemma snd_chain_loop_nth:
  "i < length cs \<Longrightarrow>
   snd (chain_loop d p start cs) ! i =
     snd (residue_loop d p (chain_id (cs ! i)) (int (length (residues (cs ! i))))
            (fst (chain_loop d p start (take i cs))) (residues (cs ! i)))"
proof (induction cs arbitrary: start i)
  case Nil
  then show ?case by simp
next
  case (Cons c cs)
  show ?case
  proof (cases i)
    case 0
    then show ?thesis by (simp add: chain_loop_Cons del: chain_loop.simps(2))
  next
    case (Suc j)
    with Cons.prems have "j < length cs" by simp
    from Cons.IH[OF this] Suc show ?thesis
      by (simp add: chain_loop_Cons del: chain_loop.simps(2))
  qed
qed

lemma snd_model_loop_nth:
  "m < length ms \<Longrightarrow>
   snd (model_loop d p start ms) ! m =
     snd (chain_loop d p (fst (model_loop d p start (take m ms))) (chains (ms ! m)))"
proof (induction ms arbitrary: start m)
  case Nil
  then show ?case by simp
next
  case (Cons x ms)
  show ?case
  proof (cases m)
    case 0
    then show ?thesis by (simp add: model_loop_Cons del: model_loop.simps(2))
  next
    case (Suc j)
    with Cons.prems have "j < length ms" by simp
    from Cons.IH[OF this] Suc show ?thesis
      by (simp add: model_loop_Cons del: model_loop.simps(2))
  qed
qed

lemma start_at_nonneg: "0 \<le> start_at d p structure m i"
proof -
  have "0 \<le> fst (model_loop d p 0 (take m structure))" by (rule model_loop_start)
  also have "\<dots> \<le> start_at d p structure m i"
    unfolding start_at_def by (rule chain_loop_start)
  finally show ?thesis .
qed

lemma split_file_nth:
  assumes "m < length structure" and "i < length (chains (structure ! m))"
  shows "split_file d p structure ! m ! i =
     snd (residue_loop d p (chain_id (chains (structure ! m) ! i))
            (int (length (residues (chains (structure ! m) ! i))))
            (start_at d p structure m i) (residues (chains (structure ! m) ! i)))"
  unfolding split_file_def start_at_def
  by (simp only: snd_model_loop_nth[OF assms(1)] snd_chain_loop_nth[OF assms(2)])

lemma chain_windows:
  assumes "m < length structure" and "i < length (chains (structure ! m))"
  shows "split_file d p structure ! m ! i =
     concat (map (inner_loop d p (chain_id (chains (structure ! m) ! i)))
       [start_at d p structure m i + 1 .. int (length (residues (chains (structure ! m) ! i))) - 8])"
proof -
  have "min (int (length (residues (chains (structure ! m) ! i))) - 8)
          (start_at d p structure m i + int (length (residues (chains (structure ! m) ! i))))
        = int (length (residues (chains (structure ! m) ! i))) - 8"
    using start_at_nonneg[of d p "structure" m i] by simp
  then show ?thesis
    by (simp only: split_file_nth[OF assms] residue_loop_windows)
qed

lemma split_file_subset:
  assumes "m < length structure" and "i < length (chains (structure ! m))"
    and "call \<in> set (split_file d p structure ! m ! i)"
  shows "call \<in> set (save_calls d p structure)"
proof -
  have lm: "length (split_file d p structure) = length structure"
    by (simp add: split_file_def length_model_loop)
  have "split_file d p structure ! m =
          snd (chain_loop d p (fst (model_loop d p 0 (take m structure))) (chains (structure ! m)))"
    unfolding split_file_def by (rule snd_model_loop_nth[OF assms(1)])
  then have lc: "length (split_file d p structure ! m) = length (chains (structure ! m))"
    by (simp add: length_chain_loop)
  from lm assms(1) have a: "split_file d p structure ! m \<in> set (split_file d p structure)"
    by simp
  from lc assms(2) have b: "split_file d p structure ! m ! i \<in> set (split_file d p structure ! m)"
    by simp
  from a b assms(3) show ?thesis unfolding save_calls_def by auto
qed

lemma save_calls_origin:
  assumes "call \<in> set (save_calls d p structure)"
  shows "\<exists>m i. m < length structure \<and> i < length (chains (structure ! m)) \<and>
           call \<in> set (split_file d p structure ! m ! i)"
proof -
  have lm: "length (split_file d p structure) = length structure"
    by (simp add: split_file_def length_model_loop)
  from assms obtain xs ys where xs: "xs \<in> set (split_file d p structure)"
    and ys: "ys \<in> set xs" and c: "call \<in> set ys"
    unfolding save_calls_def by auto
  from xs obtain m where m: "m < length (split_file d p structure)"
    and xm: "xs = split_file d p structure ! m" by (auto simp: in_set_conv_nth)
  from m lm have m': "m < length structure" by simp
  have "split_file d p structure ! m =
          snd (chain_loop d p (fst (model_loop d p 0 (take m structure))) (chains (structure ! m)))"
    unfolding split_file_def by (rule snd_model_loop_nth[OF m'])
  then have lc: "length (split_file d p structure ! m) = length (chains (structure ! m))"
    by (simp add: length_chain_loop)
  from ys obtain i where i: "i < length xs" and yi: "ys = xs ! i"
    by (auto simp: in_set_conv_nth)
  from i lc xm have i': "i < length (chains (structure ! m))" by simp
  from c yi xm have "call \<in> set (split_file d p structure ! m ! i)" by simp
  with m' i' show ?thesis by blast
qed

text \<open>Every call carries a value of \<open>start\<close> that no other call carries.\<close>

lemma residue_loop_range:
  "call \<in> set (snd (residue_loop d p cid len start rs)) \<Longrightarrow>
   call = save_window d p cid (sel_start (selection call)) \<and>
   start < sel_start (selection call) \<and>
   sel_start (selection call) \<le> fst (residue_loop d p cid len start rs)"
proof (induction rs arbitrary: start)
  case Nil
  then show ?case by simp
next
  case (Cons r rs)
  show ?case
  proof (cases "start + 1 + 8 > len")
    case True
    with Cons.prems show ?thesis by (simp add: residue_loop_Cons del: residue_loop.simps(2))
  next
    case False
    with Cons.prems have "call \<in> set (inner_loop d p cid (start + 1)) \<or>
                          call \<in> set (snd (residue_loop d p cid len (start + 1) rs))"
      by (simp add: residue_loop_Cons del: residue_loop.simps(2))
    then show ?thesis
    proof
      assume "call \<in> set (inner_loop d p cid (start + 1))"
      then have c: "call = save_window d p cid (start + 1)"
        by (simp add: inner_loop_replicate)
      have "start + 1 \<le> fst (residue_loop d p cid len (start + 1) rs)"
        by (rule residue_loop_start)
      with c False show ?thesis
        by (simp add: residue_loop_Cons save_window_sel del: residue_loop.simps(2))
    next
      assume "call \<in> set (snd (residue_loop d p cid len (start + 1) rs))"
      from Cons.IH[OF this] False show ?thesis
        by (simp add: residue_loop_Cons del: residue_loop.simps(2))
    qed
  qed
qed

lemma chain_loop_range:
  "call \<in> set (concat (snd (chain_loop d p start cs))) \<Longrightarrow>
   start < sel_start (selection call) \<and>
   sel_start (selection call) \<le> fst (chain_loop d p start cs)"
proof (induction cs arbitrary: start)
  case Nil
  then show ?case by simp
next
  case (Cons c cs)
  define s1 where
    "s1 = fst (residue_loop d p (chain_id c) (int (length (residues c))) start (residues c))"
  have s1: "start \<le> s1" unfolding s1_def by (rule residue_loop_start)
  have s2: "s1 \<le> fst (chain_loop d p s1 cs)" by (rule chain_loop_start)
  from Cons.prems have
    "call \<in> set (snd (residue_loop d p (chain_id c) (int (length (residues c))) start (residues c)))
     \<or> call \<in> set (concat (snd (chain_loop d p s1 cs)))"
    by (simp add: chain_loop_Cons s1_def del: chain_loop.simps(2))
  then show ?case
  proof
    assume "call \<in> set (snd (residue_loop d p (chain_id c) (int (length (residues c))) start
                                (residues c)))"
    from residue_loop_range[OF this] s2 show ?thesis
      by (simp add: chain_loop_Cons s1_def del: chain_loop.simps(2))
  next
    assume "call \<in> set (concat (snd (chain_loop d p s1 cs)))"
    from Cons.IH[OF this] s1 show ?thesis
      by (simp add: chain_loop_Cons s1_def del: chain_loop.simps(2))
  qed
qed

lemma chain_loop_unique:
  "c1 \<in> set (concat (snd (chain_loop d p start cs))) \<Longrightarrow>
   c2 \<in> set (concat (snd (chain_loop d p start cs))) \<Longrightarrow>
   sel_start (selection c1) = sel_start (selection c2) \<Longrightarrow> c1 = c2"
proof (induction cs arbitrary: start)
  case Nil
  then show ?case by simp
next
  case (Cons c cs)
  define s1 where
    "s1 = fst (residue_loop d p (chain_id c) (int (length (residues c))) start (residues c))"
  define here where
    "here = set (snd (residue_loop d p (chain_id c) (int (length (residues c))) start (residues c)))"
  define later where "later = set (concat (snd (chain_loop d p s1 cs)))"
  have split: "set (concat (snd (chain_loop d p start (c # cs)))) = here \<union> later"
    by (simp add: chain_loop_Cons s1_def here_def later_def del: chain_loop.simps(2))
  have h: "\<And>x. x \<in> here \<Longrightarrow>
             x = save_window d p (chain_id c) (sel_start (selection x)) \<and>
             sel_start (selection x) \<le> s1"
    unfolding here_def s1_def using residue_loop_range by blast
  have l: "\<And>x. x \<in> later \<Longrightarrow> s1 < sel_start (selection x)"
    unfolding later_def using chain_loop_range by blast
  from Cons.prems(1,2) have "c1 \<in> here \<or> c1 \<in> later" "c2 \<in> here \<or> c2 \<in> later"
    unfolding split by blast+
  then consider "c1 \<in> here" "c2 \<in> here" | "c1 \<in> later" "c2 \<in> later"
    | "c1 \<in> here" "c2 \<in> later" | "c1 \<in> later" "c2 \<in> here" by blast
  then show ?case
  proof cases
    case 1
    from h[OF 1(1)] h[OF 1(2)] Cons.prems(3) show ?thesis by metis
  next
    case 2
    then show ?thesis using Cons.IH Cons.prems(3) unfolding later_def by blast
  next
    case 3
    from h[OF 3(1)] l[OF 3(2)] Cons.prems(3) show ?thesis by simp
  next
    case 4
    from l[OF 4(1)] h[OF 4(2)] Cons.prems(3) show ?thesis by simp
  qed
qed

lemma model_loop_range:
  "call \<in> set (concat (concat (snd (model_loop d p start ms)))) \<Longrightarrow>
   start < sel_start (selection call) \<and>
   sel_start (selection call) \<le> fst (model_loop d p start ms)"
proof (induction ms arbitrary: start)
  case Nil
  then show ?case by simp
next
  case (Cons x ms)
  define s1 where "s1 = fst (chain_loop d p start (chains x))"
  have s1: "start \<le> s1" unfolding s1_def by (rule chain_loop_start)
  have s2: "s1 \<le> fst (model_loop d p s1 ms)" by (rule model_loop_start)
  from Cons.prems have
    "call \<in> set (concat (snd (chain_loop d p start (chains x))))
     \<or> call \<in> set (concat (concat (snd (model_loop d p s1 ms))))"
    by (simp add: model_loop_Cons s1_def del: model_loop.simps(2))
  then show ?case
  proof
    assume "call \<in> set (concat (snd (chain_loop d p start (chains x))))"
    from chain_loop_range[OF this] s2 show ?thesis
      by (simp add: model_loop_Cons s1_def del: model_loop.simps(2))
  next
    assume "call \<in> set (concat (concat (snd (model_loop d p s1 ms))))"
    from Cons.IH[OF this] s1 show ?thesis
      by (simp add: model_loop_Cons s1_def del: model_loop.simps(2))
  qed
qed

lemma model_loop_unique:
  "c1 \<in> set (concat (concat (snd (model_loop d p start ms)))) \<Longrightarrow>
   c2 \<in> set (concat (concat (snd (model_loop d p start ms)))) \<Longrightarrow>
   sel_start (selection c1) = sel_start (selection c2) \<Longrightarrow> c1 = c2"
proof (induction ms arbitrary: start)
  case Nil
  then show ?case by simp
next
  case (Cons x ms)
  define s1 where "s1 = fst (chain_loop d p start (chains x))"
  define here where "here = set (concat (snd (chain_loop d p start (chains x))))"
  define later where "later = set (concat (concat (snd (model_loop d p s1 ms))))"
  have split: "set (concat (concat (snd (model_loop d p start (x # ms))))) = here \<union> later"
    by (simp add: model_loop_Cons s1_def here_def later_def del: model_loop.simps(2))
  have h: "\<And>y. y \<in> here \<Longrightarrow> sel_start (selection y) \<le> s1"
    unfolding here_def s1_def using chain_loop_range by blast
  have l: "\<And>y. y \<in> later \<Longrightarrow> s1 < sel_start (selection y)"
    unfolding later_def using model_loop_range by blast
  from Cons.prems(1,2) have "c1 \<in> here \<or> c1 \<in> later" "c2 \<in> here \<or> c2 \<in> later"
    unfolding split by blast+
  then consider "c1 \<in> here" "c2 \<in> here" | "c1 \<in> later" "c2 \<in> later"
    | "c1 \<in> here" "c2 \<in> later" | "c1 \<in> later" "c2 \<in> here" by blast
  then show ?case
  proof cases
    case 1
    then show ?thesis using chain_loop_unique Cons.prems(3) unfolding here_def by blast
  next
    case 2
    then show ?thesis using Cons.IH Cons.prems(3) unfolding later_def by blast
  next
    case 3
    from h[OF 3(1)] l[OF 3(2)] Cons.prems(3) show ?thesis by simp
  next
    case 4
    from l[OF 4(1)] h[OF 4(2)] Cons.prems(3) show ?thesis by simp
  qed
qed

lemma save_calls_unique:
  "c1 \<in> set (save_calls d p structure) \<Longrightarrow> c2 \<in> set (save_calls d p structure) \<Longrightarrow>
   sel_start (selection c1) = sel_start (selection c2) \<Longrightarrow> c1 = c2"
  unfolding save_calls_def split_file_def by (rule model_loop_unique)

lemma save_calls_shape:
  assumes "call \<in> set (save_calls d p structure)"
  shows "0 < sel_start (selection call) \<and>
         file_save call = path_join d (p @ ''_'' @ str (sel_start (selection call)) @ ''.pdb'')"
proof -
  from save_calls_origin[OF assms] obtain m i where m: "m < length structure"
    and i: "i < length (chains (structure ! m))"
    and c: "call \<in> set (split_file d p structure ! m ! i)" by blast
  from c have "call \<in> set (snd (residue_loop d p (chain_id (chains (structure ! m) ! i))
            (int (length (residues (chains (structure ! m) ! i))))
            (start_at d p structure m i) (residues (chains (structure ! m) ! i))))"
    by (simp only: split_file_nth[OF m i])
  from residue_loop_range[OF this] start_at_nonneg[of d p "structure" m i]
  have a: "call = save_window d p (chain_id (chains (structure ! m) ! i))
                    (sel_start (selection call))"
    and b: "0 < sel_start (selection call)" by simp_all
  from a have "file_save call =
     file_save (save_window d p (chain_id (chains (structure ! m) ! i))
                    (sel_start (selection call)))" by simp
  then have "file_save call =
     path_join d (p @ ''_'' @ str (sel_start (selection call)) @ ''.pdb'')"
    by (simp add: save_window_def)
  with b show ?thesis by blast
qed

lemma window_name_inj:
  assumes "0 \<le> s" and "0 \<le> t"
    and "path_join d (p @ ''_'' @ str s @ ''.pdb'') = path_join d (p @ ''_'' @ str t @ ''.pdb'')"
  shows "s = t"
proof -
  from assms(3) have "p @ ''_'' @ str s @ ''.pdb'' = p @ ''_'' @ str t @ ''.pdb''"
    by (simp add: path_join_def split: if_splits)
  then have "str s = str t" by simp
  then have "str_nat (nat s) = str_nat (nat t)"
    by (simp only: str_nonneg[OF assms(1)] str_nonneg[OF assms(2)])
  then have "nat s = nat t" by (rule str_nat_inj)
  with assms(1,2) show ?thesis by simp
qed

lemma apply_saves_snoc:
  "apply_saves ser fs (xs @ [x]) = (apply_saves ser fs xs)(file_save x \<mapsto> ser (selection x))"
  by (simp add: apply_saves_append)

lemma apply_saves_last:
  "c \<in> set cs \<Longrightarrow>
   (\<forall>c'\<in>set cs. file_save c' = file_save c \<longrightarrow> selection c' = selection c) \<Longrightarrow>
   apply_saves ser fs cs (file_save c) = Some (ser (selection c))"
proof (induction cs rule: rev_induct)
  case Nil
  then show ?case by simp
next
  case (snoc x xs)
  show ?case
  proof (cases "file_save x = file_save c")
    case True
    with snoc.prems(2) have "selection x = selection c" by simp
    with True show ?thesis by (simp only: apply_saves_snoc) simp
  next
    case False
    with snoc.prems(1) have "c \<in> set xs" by auto
    moreover from snoc.prems(2)
    have "\<forall>c'\<in>set xs. file_save c' = file_save c \<longrightarrow> selection c' = selection c" by simp
    ultimately have "apply_saves ser fs xs (file_save c) = Some (ser (selection c))"
      by (rule snoc.IH)
    with False show ?thesis by (simp only: apply_saves_snoc) simp
  qed
qed

lemma window_file:
  assumes "call \<in> set (save_calls d p structure)"
  shows "apply_saves ser fs (save_calls d p structure) (file_save call) = Some (ser (selection call))"
proof (rule apply_saves_last[OF assms], intro ballI impI)
  fix c' assume c': "c' \<in> set (save_calls d p structure)"
    and same: "file_save c' = file_save call"
  from save_calls_shape[OF c'] save_calls_shape[OF assms] same
  have "sel_start (selection c') = sel_start (selection call)"
    by (intro window_name_inj[of _ _ d p]) simp_all
  from save_calls_unique[OF c' assms this] show "selection c' = selection call" by simp
qed

text \<open>Facts about lists used for the selection.\<close>

lemma filter_update_rejected:
  "i < length xs \<Longrightarrow> \<not> P (xs ! i) \<Longrightarrow> \<not> P x \<Longrightarrow> filter P (xs[i := x]) = filter P xs"
proof (induction xs arbitrary: i)
  case Nil
  then show ?case by simp
next
  case (Cons a xs)
  then show ?case by (cases i) simp_all
qed

lemma concat_map_filter_update:
  "m < length xs \<Longrightarrow> P x = P (xs ! m) \<Longrightarrow> f x = f (xs ! m) \<Longrightarrow>
   concat (map f (filter P (xs[m := x]))) = concat (map f (filter P xs))"
proof (induction xs arbitrary: m)
  case Nil
  then show ?case by simp
next
  case (Cons a xs)
  then show ?case by (cases m) simp_all
qed

lemma filter_only:
  "m < length xs \<Longrightarrow> P (xs ! m) \<Longrightarrow> (\<forall>j<length xs. j \<noteq> m \<longrightarrow> \<not> P (xs ! j)) \<Longrightarrow>
   filter P xs = [xs ! m]"
proof (induction xs arbitrary: m)
  case Nil
  then show ?case by simp
next
  case (Cons a xs)
  show ?case
  proof (cases m)
    case 0
    have "\<forall>y\<in>set xs. \<not> P y"
    proof
      fix y assume "y \<in> set xs"
      then obtain j where "j < length xs" "y = xs ! j" by (auto simp: in_set_conv_nth)
      with Cons.prems(3)[rule_format, of "Suc j"] 0 show "\<not> P y" by simp
    qed
    then have "filter P xs = []" by (simp add: filter_empty_conv)
    with 0 Cons.prems(2) show ?thesis by simp
  next
    case (Suc k)
    with Cons.prems have k: "k < length xs" and pk: "P (xs ! k)" by simp_all
    have others: "\<forall>j<length xs. j \<noteq> k \<longrightarrow> \<not> P (xs ! j)"
    proof (intro allI impI)
      fix j assume "j < length xs" "j \<noteq> k"
      with Cons.prems(3)[rule_format, of "Suc j"] Suc show "\<not> P (xs ! j)" by simp
    qed
    from Cons.prems(3)[rule_format, of 0] Suc have "\<not> P a" by simp
    with Cons.IH[OF k pk others] Suc show ?thesis by simp
  qed
qed

section \<open>Facts about the selection\<close>

lemma with_residues_rejected:
  assumes m: "m < length structure" and i: "i < length (chains (structure ! m))"
    and rej: "\<not> accept_chain sel (chains (structure ! m) ! i)"
  shows "saved_residues (with_residues structure m i other) sel = saved_residues structure sel"
proof -
  define c where "c = chains (structure ! m) ! i"
  define x where "x = (structure ! m)\<lparr>chains := (chains (structure ! m))[i := c\<lparr>residues := other\<rparr>]\<rparr>"
  define f where "f = (\<lambda>m::model. concat (map (\<lambda>c::chain. filter (accept_residue sel) (residues c))
                                  (filter (accept_chain sel) (chains m))))"
  have "\<not> accept_chain sel (c\<lparr>residues := other\<rparr>)"
    using rej by (simp add: accept_chain_def c_def)
  with i rej have "filter (accept_chain sel) ((chains (structure ! m))[i := c\<lparr>residues := other\<rparr>])
        = filter (accept_chain sel) (chains (structure ! m))"
    by (intro filter_update_rejected) (simp_all add: c_def)
  then have fx: "f x = f (structure ! m)" by (simp add: f_def x_def)
  have px: "accept_model sel x = accept_model sel (structure ! m)"
    by (simp add: accept_model_def x_def)
  from concat_map_filter_update[OF m px fx]
  show ?thesis unfolding saved_residues_def with_residues_def f_def x_def c_def .
qed

lemma saved_residues_ChainSelector:
  "saved_residues structure (ChainSelector cid s e) =
     concat (map (\<lambda>x::model.
       concat (map (\<lambda>c'::chain.
           filter (\<lambda>r. \<not> hetero r \<and> s \<le> res_id r \<and> res_id r \<le> e) (residues c'))
         (filter (\<lambda>c'. chain_id c' = cid) (chains x))))
       (filter (\<lambda>x. model_id x = 0) structure))"
proof -
  have r: "accept_residue (ChainSelector cid s e) =
             (\<lambda>r. \<not> hetero r \<and> s \<le> res_id r \<and> res_id r \<le> e)"
    by (rule ext) (simp add: accept_residue_def ChainSelector_def)
  have c: "accept_chain (ChainSelector cid s e) = (\<lambda>c'. chain_id c' = cid)"
    by (rule ext) (simp add: accept_chain_def ChainSelector_def)
  have x: "accept_model (ChainSelector cid s e) = (\<lambda>x. model_id x = 0)"
    by (rule ext) (simp add: accept_model_def ChainSelector_def)
  show ?thesis unfolding saved_residues_def r c x ..
qed

lemma saved_atoms_ChainSelector:
  "saved_atoms structure (ChainSelector cid s e) =
     concat (map (\<lambda>r. filter (\<lambda>a. \<not> is_hydrogen (atom_name a)) (res_atoms r))
       (saved_residues structure (ChainSelector cid s e)))"
proof -
  have a: "accept_atom (ChainSelector cid s e) = (\<lambda>a. \<not> is_hydrogen (atom_name a))"
    by (rule ext) (simp add: accept_atom_def)
  show ?thesis unfolding saved_atoms_def a ..
qed

lemma saved_residues_only:
  assumes m: "m < length structure" and i: "i < length (chains (structure ! m))"
    and zero: "model_id (structure ! m) = 0"
    and models: "\<forall>m'<length structure. m' \<noteq> m \<longrightarrow> model_id (structure ! m') \<noteq> 0"
    and chs: "\<forall>i'<length (chains (structure ! m)). i' \<noteq> i \<longrightarrow>
               chain_id (chains (structure ! m) ! i') \<noteq> chain_id (chains (structure ! m) ! i)"
  shows "saved_residues structure (ChainSelector (chain_id (chains (structure ! m) ! i)) s e) =
           filter (\<lambda>r. \<not> hetero r \<and> s \<le> res_id r \<and> res_id r \<le> e)
             (residues (chains (structure ! m) ! i))"
proof -
  have a: "filter (\<lambda>x. model_id x = 0) structure = [structure ! m]"
    using m zero models by (intro filter_only) simp_all
  have b: "filter (\<lambda>c'. chain_id c' = chain_id (chains (structure ! m) ! i)) (chains (structure ! m))
             = [chains (structure ! m) ! i]"
    using i chs by (intro filter_only) simp_all
  show ?thesis unfolding saved_residues_ChainSelector a by (simp add: b)
qed

section \<open>The TER branch\<close>

text \<open>
  Claim C4. During renumbering, a TER line sets \<open>current_residue\<close> to its own
  residue-number field (which changes it exactly when the field differed) and never
  increments \<open>current_residue_number\<close>; it is written as its first 22 characters, the
  text of \<open>current_residue_number\<close> and what follows its column 26, whether or not the
  field differed. When the TER line has at least 26 characters and the counter is below
  10000, columns 23 to 26 of the written line hold the right-justified 4-character text
  of the counter, and the first 22 characters, what follows column 26 and the length of
  the line are unchanged. The state is the one the loop has reached after the lines
  \<open>pre\<close> that precede the TER line.
\<close>

theorem ter_line_rewrite:
  assumes "startswith line ''TER''"
  shows "renumber (pre @ line # post) ! length pre =
           take 22 line @ rjust 4 (str (current_residue_number (state_after initial_state pre)))
             @ drop 26 line \<and>
         current_residue_number (state_after initial_state (pre @ [line])) =
           current_residue_number (state_after initial_state pre) \<and>
         current_residue (state_after initial_state (pre @ [line])) = Some (slice 22 26 line) \<and>
         (26 \<le> length line \<and> current_residue_number (state_after initial_state pre) < 10000 \<longrightarrow>
            slice 22 26 (renumber (pre @ line # post) ! length pre) =
              rjust 4 (str (current_residue_number (state_after initial_state pre))) \<and>
            length (slice 22 26 (renumber (pre @ line # post) ! length pre)) = 4 \<and>
            take 22 (renumber (pre @ line # post) ! length pre) = take 22 line \<and>
            drop 26 (renumber (pre @ line # post) ! length pre) = drop 26 line \<and>
            length (renumber (pre @ line # post) ! length pre) = length line)"
proof -
  define n where "n = current_residue_number (state_after initial_state pre)"
  have basic: "renumber (pre @ line # post) ! length pre =
           take 22 line @ rjust 4 (str n) @ drop 26 line \<and>
         current_residue_number (state_after initial_state (pre @ [line])) = n \<and>
         current_residue (state_after initial_state (pre @ [line])) = Some (slice 22 26 line)"
    using assms
    by (simp add: renumber_def renumber_lines_append length_renumber_lines nth_append
        state_after_append step_ter n_def)
  then have o: "renumber (pre @ line # post) ! length pre =
           take 22 line @ rjust 4 (str n) @ drop 26 line" by blast
  have n0: "0 \<le> n" unfolding n_def by (rule counter_nonneg)
  have wide: "26 \<le> length line \<and> n < 10000 \<longrightarrow>
            slice 22 26 (renumber (pre @ line # post) ! length pre) = rjust 4 (str n) \<and>
            length (slice 22 26 (renumber (pre @ line # post) ! length pre)) = 4 \<and>
            take 22 (renumber (pre @ line # post) ! length pre) = take 22 line \<and>
            drop 26 (renumber (pre @ line # post) ! length pre) = drop 26 line \<and>
            length (renumber (pre @ line # post) ! length pre) = length line"
  proof
    assume a: "26 \<le> length line \<and> n < 10000"
    then have l: "26 \<le> length line" by blast
    from a n0 have f: "length (rjust 4 (str n)) = 4" by (intro length_field_text) simp_all
    from field_width[OF l f] f show
      "slice 22 26 (renumber (pre @ line # post) ! length pre) = rjust 4 (str n) \<and>
       length (slice 22 26 (renumber (pre @ line # post) ! length pre)) = 4 \<and>
       take 22 (renumber (pre @ line # post) ! length pre) = take 22 line \<and>
       drop 26 (renumber (pre @ line # post) ! length pre) = drop 26 line \<and>
       length (renumber (pre @ line # post) ! length pre) = length line"
      unfolding o by simp
  qed
  from basic wide show ?thesis unfolding n_def by blast
qed

text \<open>
  On a TER line of fewer than 26 characters the residue-number field of the written
  line does not hold the counter: after one ATOM line, the record \<open>TER\<close> followed by its
  line terminator is written as that record followed by the text \<open>   1\<close>, and columns 23
  to 26 of the written line are empty.
\<close>

theorem ter_line_rewrite_counterexample:
  "startswith ''TER\<newline>'' ''TER'' \<and>
   current_residue_number (state_after initial_state [atom_line ''   5'']) = 1 \<and>
   rjust 4 (str 1) = ''   1'' \<and>
   renumber [atom_line ''   5'', ''TER\<newline>''] ! 1 = ''TER\<newline>   1'' \<and>
   slice 22 26 (renumber [atom_line ''   5'', ''TER\<newline>''] ! 1) = []"
  by code_simp

text \<open>
  An ATOM line with field 5 followed by a TER line with field 6: the TER line is written
  with field 1, the counter stays 1, and the current identifier becomes the TER line's
  field.
\<close>

theorem ter_line_rewrite_witness:
  "startswith (ter_line ''   6'') ''TER'' \<and>
   26 \<le> length (ter_line ''   6'') \<and>
   current_residue_number (state_after initial_state [atom_line ''   5'']) < 10000 \<and>
   renumber [atom_line ''   5'', ter_line ''   6''] ! 1 = ter_line ''   1'' \<and>
   slice 22 26 (renumber [atom_line ''   5'', ter_line ''   6''] ! 1) = ''   1'' \<and>
   current_residue_number (state_after initial_state [atom_line ''   5'', ter_line ''   6'']) = 1 \<and>
   current_residue (state_after initial_state [atom_line ''   5'', ter_line ''   6''])
     = Some ''   6''"
proof -
  have h: "startswith (ter_line ''   6'') ''TER''" by code_simp
  have w: "26 \<le> length (ter_line ''   6'')" by code_simp
  have b: "current_residue_number (state_after initial_state [atom_line ''   5'']) < 10000"
    by code_simp
  have l: "[atom_line ''   5''] @ ter_line ''   6'' # [] = [atom_line ''   5'', ter_line ''   6'']"
          "[atom_line ''   5''] @ [ter_line ''   6''] = [atom_line ''   5'', ter_line ''   6'']"
          "length [atom_line ''   5''] = 1"
    by simp_all
  have c: "current_residue_number (state_after initial_state [atom_line ''   5'']) = 1"
    by code_simp
  have f: "rjust 4 (str 1) = ''   1''"
          "take 22 (ter_line ''   6'') @ ''   1'' @ drop 26 (ter_line ''   6'') = ter_line ''   1''"
    by code_simp+
  have s: "slice 22 26 (ter_line ''   6'') = ''   6''" by code_simp
  have one: "(1::int) < 10000" by simp
  note t = ter_line_rewrite[OF h, of "[atom_line ''   5'']" "[]", unfolded l c f s]
  from t w one h b show ?thesis by blast
qed

section \<open>What renumbering leaves alone\<close>

text \<open>
  Claim C3, for the file the script writes, read as the script reads a file: as the list
  of its lines, each with its terminator (the translation of line terminators done by
  text mode on reading and on writing is not part of the model, which speaks of the
  characters after it). When every ATOM or TER line of the input has at least 26
  characters before its line terminator, the written file has the lines of the
  renumbered list: as many lines as the input, each of the same record kind; a line that
  is neither an ATOM nor a TER record is unchanged; an ATOM or TER line keeps its first
  22 characters, and, when the counter reached at that line is below 10000, it keeps its
  length and what follows column 26, and columns 23 to 26 hold the right-justified
  4-character text of the counter.
\<close>

theorem renumber_frame:
  assumes wide: "\<forall>l\<in>set (readlines content).
             startswith l ''ATOM'' \<or> startswith l ''TER'' \<longrightarrow>
               26 \<le> length l \<and> CHR 0x0A \<notin> set (take 26 l)"
  shows "readlines (renumber_file content) = renumber (readlines content) \<and>
    length (readlines (renumber_file content)) = length (readlines content) \<and>
    (\<forall>i<length (readlines content).
       startswith (readlines (renumber_file content) ! i) ''ATOM''
         = startswith (readlines content ! i) ''ATOM'' \<and>
       startswith (readlines (renumber_file content) ! i) ''TER''
         = startswith (readlines content ! i) ''TER'' \<and>
       (if startswith (readlines content ! i) ''ATOM'' \<or> startswith (readlines content ! i) ''TER''
        then take 22 (readlines (renumber_file content) ! i) = take 22 (readlines content ! i) \<and>
             (current_residue_number
                (state_after initial_state (take (Suc i) (readlines content))) < 10000 \<longrightarrow>
                length (readlines (renumber_file content) ! i) = length (readlines content ! i) \<and>
                drop 26 (readlines (renumber_file content) ! i) = drop 26 (readlines content ! i) \<and>
                slice 22 26 (readlines (renumber_file content) ! i) =
                  rjust 4 (str (current_residue_number
                             (state_after initial_state (take (Suc i) (readlines content))))) \<and>
                length (slice 22 26 (readlines (renumber_file content) ! i)) = 4)
        else readlines (renumber_file content) ! i = readlines content ! i))"
proof -
  define ls where "ls = readlines content"
  have w: "readlines (renumber_file content) = renumber ls"
    unfolding ls_def using wide by (rule written_file_lines)
  have len: "length (renumber ls) = length ls"
    by (simp add: renumber_def length_renumber_lines)
  have each: "\<forall>i<length ls.
       startswith (renumber ls ! i) ''ATOM'' = startswith (ls ! i) ''ATOM'' \<and>
       startswith (renumber ls ! i) ''TER'' = startswith (ls ! i) ''TER'' \<and>
       (if startswith (ls ! i) ''ATOM'' \<or> startswith (ls ! i) ''TER''
        then take 22 (renumber ls ! i) = take 22 (ls ! i) \<and>
             (current_residue_number (state_after initial_state (take (Suc i) ls)) < 10000 \<longrightarrow>
                length (renumber ls ! i) = length (ls ! i) \<and>
                drop 26 (renumber ls ! i) = drop 26 (ls ! i) \<and>
                slice 22 26 (renumber ls ! i) =
                  rjust 4 (str (current_residue_number (state_after initial_state (take (Suc i) ls)))) \<and>
                length (slice 22 26 (renumber ls ! i)) = 4)
        else renumber ls ! i = ls ! i)"
  proof (intro allI impI)
    fix i assume i: "i < length ls"
    define n where "n = current_residue_number (state_after initial_state (take (Suc i) ls))"
    have k: "startswith (renumber ls ! i) ''ATOM'' = startswith (ls ! i) ''ATOM''"
      "startswith (renumber ls ! i) ''TER'' = startswith (ls ! i) ''TER''"
      using kind_written[OF i] by simp_all
    have body: "if startswith (ls ! i) ''ATOM'' \<or> startswith (ls ! i) ''TER''
        then take 22 (renumber ls ! i) = take 22 (ls ! i) \<and>
             (n < 10000 \<longrightarrow>
                length (renumber ls ! i) = length (ls ! i) \<and>
                drop 26 (renumber ls ! i) = drop 26 (ls ! i) \<and>
                slice 22 26 (renumber ls ! i) = rjust 4 (str n) \<and>
                length (slice 22 26 (renumber ls ! i)) = 4)
        else renumber ls ! i = ls ! i"
    proof (cases "startswith (ls ! i) ''ATOM'' \<or> startswith (ls ! i) ''TER''")
      case False
      with other_line_written[OF i] show ?thesis by simp
    next
      case True
      have o: "renumber ls ! i = take 22 (ls ! i) @ rjust 4 (str n) @ drop 26 (ls ! i)"
        unfolding n_def by (rule record_line_written[OF i True])
      from i have "ls ! i \<in> set ls" by simp
      with wide True have l26: "26 \<le> length (ls ! i)" unfolding ls_def by blast
      then have l22: "22 \<le> length (ls ! i)" by simp
      have t: "take 22 (renumber ls ! i) = take 22 (ls ! i)"
        unfolding o by (rule take_22_written[OF l22])
      have n0: "0 \<le> n" unfolding n_def by (rule counter_nonneg)
      have rest: "n < 10000 \<longrightarrow>
                length (renumber ls ! i) = length (ls ! i) \<and>
                drop 26 (renumber ls ! i) = drop 26 (ls ! i) \<and>
                slice 22 26 (renumber ls ! i) = rjust 4 (str n) \<and>
                length (slice 22 26 (renumber ls ! i)) = 4"
      proof
        assume "n < 10000"
        with n0 have f: "length (rjust 4 (str n)) = 4" by (rule length_field_text)
        from field_width[OF l26 f] f show
          "length (renumber ls ! i) = length (ls ! i) \<and>
           drop 26 (renumber ls ! i) = drop 26 (ls ! i) \<and>
           slice 22 26 (renumber ls ! i) = rjust 4 (str n) \<and>
           length (slice 22 26 (renumber ls ! i)) = 4"
          unfolding o by simp
      qed
      from True t rest show ?thesis by (simp only: if_True)
    qed
    from k body show "startswith (renumber ls ! i) ''ATOM'' = startswith (ls ! i) ''ATOM'' \<and>
       startswith (renumber ls ! i) ''TER'' = startswith (ls ! i) ''TER'' \<and>
       (if startswith (ls ! i) ''ATOM'' \<or> startswith (ls ! i) ''TER''
        then take 22 (renumber ls ! i) = take 22 (ls ! i) \<and>
             (current_residue_number (state_after initial_state (take (Suc i) ls)) < 10000 \<longrightarrow>
                length (renumber ls ! i) = length (ls ! i) \<and>
                drop 26 (renumber ls ! i) = drop 26 (ls ! i) \<and>
                slice 22 26 (renumber ls ! i) =
                  rjust 4 (str (current_residue_number (state_after initial_state (take (Suc i) ls)))) \<and>
                length (slice 22 26 (renumber ls ! i)) = 4)
        else renumber ls ! i = ls ! i)"
      unfolding n_def by blast
  qed
  have same: "renumber ls = renumber ls" ..
  from same len each show ?thesis unfolding w unfolding ls_def by (intro conjI)
qed

text \<open>
  Without the condition on the lengths the claim fails in the written file. A bare TER
  record between an ATOM line and an END line is written without a terminator at its end,
  so the third line of the written file is \<open>   1END\<close>: a line that was neither ATOM nor
  TER is modified. A TER line of 23 characters followed by an END line is written as one
  line: two lines become one.
\<close>

theorem renumber_frame_counterexample:
  "readlines (atom_line ''   5'' @ ''TER\<newline>'' @ ''END\<newline>'')
     = [atom_line ''   5'', ''TER\<newline>'', ''END\<newline>''] \<and>
   readlines (renumber_file (atom_line ''   5'' @ ''TER\<newline>'' @ ''END\<newline>''))
     = [atom_line ''   1'', ''TER\<newline>'', ''   1END\<newline>''] \<and>
   readlines (''TER       2      MET A\<newline>'' @ ''END\<newline>'')
     = [''TER       2      MET A\<newline>'', ''END\<newline>''] \<and>
   readlines (renumber_file (''TER       2      MET A\<newline>'' @ ''END\<newline>''))
     = [''TER       2      MET A   0END\<newline>'']"
  by code_simp

text \<open>
  A file of an ATOM line, a REMARK line and a TER line of 80 columns: the written file
  has three lines, the REMARK line is unchanged, and the TER line keeps its length and
  everything outside columns 23 to 26, which hold \<open>   1\<close>.
\<close>

theorem renumber_frame_witness:
  "list_all (\<lambda>l. startswith l ''ATOM'' \<or> startswith l ''TER'' \<longrightarrow>
               26 \<le> length l \<and> CHR 0x0A \<notin> set (take 26 l))
     (readlines (atom_line ''   5'' @ ''REMARK\<newline>'' @ ter_line ''   5'')) \<and>
   readlines (atom_line ''   5'' @ ''REMARK\<newline>'' @ ter_line ''   5'')
     = [atom_line ''   5'', ''REMARK\<newline>'', ter_line ''   5''] \<and>
   readlines (renumber_file (atom_line ''   5'' @ ''REMARK\<newline>'' @ ter_line ''   5''))
     = [atom_line ''   1'', ''REMARK\<newline>'', ter_line ''   1''] \<and>
   length (readlines (renumber_file (atom_line ''   5'' @ ''REMARK\<newline>'' @ ter_line ''   5'')))
     = length (readlines (atom_line ''   5'' @ ''REMARK\<newline>'' @ ter_line ''   5'')) \<and>
   length (readlines (renumber_file
       (atom_line ''   5'' @ ''REMARK\<newline>'' @ ter_line ''   5'')) ! 2)
     = length (ter_line ''   5'') \<and>
   take 22 (readlines (renumber_file
       (atom_line ''   5'' @ ''REMARK\<newline>'' @ ter_line ''   5'')) ! 2)
     = take 22 (ter_line ''   5'') \<and>
   drop 26 (readlines (renumber_file
       (atom_line ''   5'' @ ''REMARK\<newline>'' @ ter_line ''   5'')) ! 2)
     = drop 26 (ter_line ''   5'') \<and>
   slice 22 26 (readlines (renumber_file
       (atom_line ''   5'' @ ''REMARK\<newline>'' @ ter_line ''   5'')) ! 2)
     = ''   1'' \<and>
   readlines (renumber_file (atom_line ''   5'' @ ''REMARK\<newline>'' @ ter_line ''   5'')) ! 1
     = ''REMARK\<newline>''"
proof -
  define c where "c = atom_line ''   5'' @ ''REMARK\<newline>'' @ ter_line ''   5''"
  define L where "L = readlines c"
  define W where "W = readlines (renumber_file c)"
  have a: "list_all (\<lambda>l. startswith l ''ATOM'' \<or> startswith l ''TER'' \<longrightarrow>
               26 \<le> length l \<and> CHR 0x0A \<notin> set (take 26 l)) (readlines c)"
    unfolding c_def by code_simp
  then have a': "\<forall>l\<in>set (readlines c). startswith l ''ATOM'' \<or> startswith l ''TER'' \<longrightarrow>
               26 \<le> length l \<and> CHR 0x0A \<notin> set (take 26 l)"
    by (simp only: list_all_iff)
  have r: "L = [atom_line ''   5'', ''REMARK\<newline>'', ter_line ''   5'']"
    unfolding L_def c_def by code_simp
  have n: "(1::nat) < length L" "(2::nat) < length L" "L ! 1 = ''REMARK\<newline>''"
    "L ! 2 = ter_line ''   5''"
    by (simp_all add: r)
  have k1: "\<not> (startswith (L ! 1) ''ATOM'' \<or> startswith (L ! 1) ''TER'')"
    unfolding n by code_simp
  have k2: "startswith (L ! 2) ''ATOM'' \<or> startswith (L ! 2) ''TER''"
    unfolding n by code_simp
  have c2: "current_residue_number (state_after initial_state (take (Suc 2) L)) < 10000"
    unfolding r by code_simp
  have t2: "rjust 4 (str (current_residue_number (state_after initial_state (take (Suc 2) L))))
            = ''   1''"
    unfolding r by code_simp
  note t = renumber_frame[OF a', folded L_def W_def]
  from t have w: "W = renumber L" and len: "length W = length L" by blast+
  have ev: "renumber L = [atom_line ''   1'', ''REMARK\<newline>'', ter_line ''   1'']"
    unfolding r by code_simp
  from t n(1) have "if startswith (L ! 1) ''ATOM'' \<or> startswith (L ! 1) ''TER''
        then take 22 (W ! 1) = take 22 (L ! 1) \<and>
             (current_residue_number (state_after initial_state (take (Suc 1) L)) < 10000 \<longrightarrow>
                length (W ! 1) = length (L ! 1) \<and>
                drop 26 (W ! 1) = drop 26 (L ! 1) \<and>
                slice 22 26 (W ! 1) =
                  rjust 4 (str (current_residue_number
                             (state_after initial_state (take (Suc 1) L)))) \<and>
                length (slice 22 26 (W ! 1)) = 4)
        else W ! 1 = L ! 1" by blast
  with k1 have l1: "W ! 1 = L ! 1" by (simp only: if_False)
  from t n(2) have "if startswith (L ! 2) ''ATOM'' \<or> startswith (L ! 2) ''TER''
        then take 22 (W ! 2) = take 22 (L ! 2) \<and>
             (current_residue_number (state_after initial_state (take (Suc 2) L)) < 10000 \<longrightarrow>
                length (W ! 2) = length (L ! 2) \<and>
                drop 26 (W ! 2) = drop 26 (L ! 2) \<and>
                slice 22 26 (W ! 2) =
                  rjust 4 (str (current_residue_number
                             (state_after initial_state (take (Suc 2) L)))) \<and>
                length (slice 22 26 (W ! 2)) = 4)
        else W ! 2 = L ! 2" by blast
  with k2 c2 have l2: "take 22 (W ! 2) = take 22 (L ! 2) \<and> length (W ! 2) = length (L ! 2) \<and>
      drop 26 (W ! 2) = drop 26 (L ! 2) \<and> slice 22 26 (W ! 2) = ''   1''"
    unfolding t2 by (simp only: if_True)
  from a r w ev len l1 l2 show ?thesis
    unfolding n unfolding W_def L_def c_def by simp
qed

section \<open>Records shorter than 26 characters\<close>

text \<open>
  Claim C10, as the script has it. For an ATOM or TER line shorter than 26 characters
  (terminator included) the new line is the first 22 characters of the old one followed
  by the counter text \<open>str(n).rjust(4)\<close> and nothing else. When the line has at most 22
  characters, such as a bare \<open>TER\<close> line, this puts the text after the whole line,
  terminator included. In every case the new line is longer than the old one.
\<close>

theorem short_line_rewrite:
  assumes "startswith line ''ATOM'' \<or> startswith line ''TER''" and "length line < 26"
  shows "renumber (pre @ line # post) ! length pre =
           take 22 line @
           rjust 4 (str (current_residue_number (state_after initial_state (pre @ [line])))) \<and>
         (length line \<le> 22 \<longrightarrow>
            renumber (pre @ line # post) ! length pre =
              line @ rjust 4 (str (current_residue_number
                                     (state_after initial_state (pre @ [line]))))) \<and>
         length line < length (renumber (pre @ line # post) ! length pre)"
proof -
  define n where "n = current_residue_number (state_after initial_state (pre @ [line]))"
  have o: "renumber (pre @ line # post) ! length pre = take 22 line @ rjust 4 (str n)"
    using step_out_record[OF assms(1), of "state_after initial_state pre"] assms(2)
    by (simp add: renumber_def renumber_lines_append length_renumber_lines nth_append
        state_after_snoc n_def renumber_lines_Cons del: renumber_lines.simps)
  have "length line < 22 + 4 \<and> 4 \<le> length (rjust 4 (str n))"
    using assms(2) length_rjust_ge[of 4 "str n"] by simp
  then have "length line < min (length line) 22 + length (rjust 4 (str n))"
    by linarith
  then have "length line < length (take 22 line @ rjust 4 (str n))"
    by (simp only: length_append length_take)
  with o show ?thesis unfolding n_def[symmetric] by simp
qed

text \<open>
  A TER line of 23 characters (22 columns and the terminator): the terminator is not
  kept, so the counter text does not follow the whole content of the line.
\<close>

theorem short_line_rewrite_counterexample:
  "startswith ''TER       2      MET A\<newline>'' ''TER'' \<and>
   length ''TER       2      MET A\<newline>'' < 26 \<and>
   renumber [atom_line ''   5'', ''TER       2      MET A\<newline>''] ! 1
     = ''TER       2      MET A   1'' \<and>
   renumber [atom_line ''   5'', ''TER       2      MET A\<newline>''] ! 1
     \<noteq> ''TER       2      MET A\<newline>'' @ ''   1''"
  by code_simp

text \<open>A bare \<open>TER\<close> line after one ATOM record: the text follows the terminator.\<close>

theorem short_line_rewrite_witness:
  "(startswith ''TER\<newline>'' ''ATOM'' \<or> startswith ''TER\<newline>'' ''TER'') \<and>
   length ''TER\<newline>'' < 26 \<and> length ''TER\<newline>'' \<le> 22 \<and>
   renumber [atom_line ''   5'', ''TER\<newline>''] ! 1 = ''TER\<newline>   1'' \<and>
   length ''TER\<newline>'' < length (renumber [atom_line ''   5'', ''TER\<newline>''] ! 1)"
proof -
  have h: "startswith ''TER\<newline>'' ''ATOM'' \<or> startswith ''TER\<newline>'' ''TER''"
    by code_simp
  have s: "length ''TER\<newline>'' < 26" "length ''TER\<newline>'' \<le> 22" by simp_all
  have l: "[atom_line ''   5''] @ ''TER\<newline>'' # [] = [atom_line ''   5'', ''TER\<newline>'']"
          "length [atom_line ''   5''] = 1"
    by simp_all
  have c: "''TER\<newline>'' @ rjust 4 (str (current_residue_number
             (state_after initial_state [atom_line ''   5'', ''TER\<newline>''])))
           = ''TER\<newline>   1''"
    by code_simp
  from short_line_rewrite[OF h s(1), of "[atom_line ''   5'']" "[]"] s(2)
  have "renumber ([atom_line ''   5''] @ ''TER\<newline>'' # []) ! length [atom_line ''   5''] =
          ''TER\<newline>'' @ rjust 4 (str (current_residue_number
             (state_after initial_state ([atom_line ''   5''] @ [''TER\<newline>''])))) \<and>
        length ''TER\<newline>'' <
          length (renumber ([atom_line ''   5''] @ ''TER\<newline>'' # []) ! length [atom_line ''   5''])"
    by blast
  with h s show ?thesis unfolding l c by blast
qed

section \<open>The numbers written into ATOM lines\<close>




section \<open>Fields that are not numbers\<close>

text \<open>
  Claim C8, as the script has it. No step of the loop can raise: slicing, comparison of
  strings, \<open>str\<close>, \<open>rjust\<close> and concatenation are total, which is why \<open>renumber_step\<close>
  has no error result. An ATOM line whose residue-number field is not parseable as an
  integer is handled like any other: the field is compared as text with
  \<open>current_residue\<close>, the counter is incremented exactly when the two differ, and the
  line is rewritten with the counter.
\<close>

theorem atom_field_compared_as_text:
  assumes "startswith line ''ATOM''" and "\<not> parses_as_int (slice 22 26 line)"
  shows "current_residue_number (state_after initial_state (pre @ [line])) =
           (if current_residue (state_after initial_state pre) = Some (slice 22 26 line)
            then current_residue_number (state_after initial_state pre)
            else current_residue_number (state_after initial_state pre) + 1) \<and>
         current_residue (state_after initial_state (pre @ [line])) = Some (slice 22 26 line) \<and>
         renumber (pre @ line # post) ! length pre =
           take 22 line @
           rjust 4 (str (current_residue_number (state_after initial_state (pre @ [line])))) @
           drop 26 line"
proof -
  have "renumber (pre @ line # post) ! length pre =
          snd (renumber_step (state_after initial_state pre) line)"
    by (simp add: renumber_def renumber_lines_append length_renumber_lines nth_append
        renumber_lines_Cons del: renumber_lines.simps)
  with assms(1) show ?thesis
    by (simp add: state_after_snoc step_counter step_current step_out_record)
qed

text \<open>
  The field \<open>A000\<close> is not parseable as an integer. Two ATOM lines carrying it: the second
  one equals the current identifier and does not increment the counter.
\<close>

theorem atom_field_compared_as_text_counterexample:
  "startswith (atom_line ''A000'') ''ATOM'' \<and>
   slice 22 26 (atom_line ''A000'') = ''A000'' \<and>
   \<not> parses_as_int ''A000'' \<and>
   current_residue_number (state_after initial_state [atom_line ''A000'']) = 1 \<and>
   current_residue_number (state_after initial_state [atom_line ''A000'', atom_line ''A000'']) = 1 \<and>
   renumber [atom_line ''A000'', atom_line ''A000''] = [atom_line ''   1'', atom_line ''   1'']"
  by code_simp

text \<open>An ATOM line with field \<open>A001\<close> after one with field \<open>A000\<close>: the counter goes to 2.\<close>

theorem atom_field_compared_as_text_witness:
  "startswith (atom_line ''A001'') ''ATOM'' \<and>
   \<not> parses_as_int (slice 22 26 (atom_line ''A001'')) \<and>
   current_residue_number (state_after initial_state [atom_line ''A000'', atom_line ''A001'']) = 2 \<and>
   current_residue (state_after initial_state [atom_line ''A000'', atom_line ''A001''])
     = Some ''A001'' \<and>
   renumber [atom_line ''A000'', atom_line ''A001''] ! 1 = atom_line ''   2''"
proof -
  have h: "startswith (atom_line ''A001'') ''ATOM''" by code_simp
  have p: "\<not> parses_as_int (slice 22 26 (atom_line ''A001''))" by code_simp
  have l: "[atom_line ''A000''] @ atom_line ''A001'' # [] = [atom_line ''A000'', atom_line ''A001'']"
          "[atom_line ''A000''] @ [atom_line ''A001''] = [atom_line ''A000'', atom_line ''A001'']"
          "length [atom_line ''A000''] = 1"
    by simp_all
  have c: "current_residue (state_after initial_state [atom_line ''A000''])
             \<noteq> Some (slice 22 26 (atom_line ''A001''))"
          "current_residue_number (state_after initial_state [atom_line ''A000'']) + 1 = 2"
    by code_simp+
  have s: "slice 22 26 (atom_line ''A001'') = ''A001''" by code_simp
  have f: "take 22 (atom_line ''A001'') @ rjust 4 (str 2) @ drop 26 (atom_line ''A001'')
           = atom_line ''   2''" by code_simp
  from atom_field_compared_as_text[OF h p, of "[atom_line ''A000'']" "[]"]
  have "current_residue_number (state_after initial_state [atom_line ''A000'', atom_line ''A001'']) = 2 \<and>
        current_residue (state_after initial_state [atom_line ''A000'', atom_line ''A001''])
          = Some (slice 22 26 (atom_line ''A001'')) \<and>
        renumber [atom_line ''A000'', atom_line ''A001''] ! 1 =
           take 22 (atom_line ''A001'') @
           rjust 4 (str (current_residue_number
                      (state_after initial_state [atom_line ''A000'', atom_line ''A001'']))) @
           drop 26 (atom_line ''A001'')"
    unfolding l using c by simp
  then have "current_residue_number (state_after initial_state [atom_line ''A000'', atom_line ''A001'']) = 2 \<and>
        current_residue (state_after initial_state [atom_line ''A000'', atom_line ''A001''])
          = Some ''A001'' \<and>
        renumber [atom_line ''A000'', atom_line ''A001''] ! 1 = atom_line ''   2''"
    using f s by simp
  with h p show ?thesis by blast
qed

section \<open>Renumbering twice\<close>

text \<open>
  Claim C5, as the script has it. Take a file in which every ATOM or TER line has at
  least 26 characters before its terminator and which has fewer than 10000 ATOM lines.
  Running the script on the file it has written gives that file again.
\<close>

theorem renumber_file_idempotent:
  assumes "\<forall>l\<in>set (readlines content).
             startswith l ''ATOM'' \<or> startswith l ''TER'' \<longrightarrow>
               26 \<le> length l \<and> CHR 0x0A \<notin> set (take 26 l)"
    and "length (filter (\<lambda>l. startswith l ''ATOM'') (readlines content)) < 10000"
  shows "renumber_file (renumber_file content) = renumber_file content"
proof -
  define ls where "ls = readlines content"
  have ok: "lines_ok (renumber ls)"
    unfolding renumber_def ls_def
    using lines_ok_readlines assms(1) by (rule lines_ok_renumber_lines)
  have wide: "\<forall>l\<in>set ls. startswith l ''ATOM'' \<or> startswith l ''TER'' \<longrightarrow> 26 \<le> length l"
    using assms(1) by (simp add: ls_def)
  have idem: "renumber (renumber ls) = renumber ls"
    using wide assms(2) unfolding ls_def[symmetric] by (rule renumber_idem)
  have "renumber_file (renumber_file content) =
          writelines (renumber (readlines (concat (renumber ls))))"
    by (simp add: renumber_file_def writelines_def ls_def)
  also have "\<dots> = writelines (renumber (renumber ls))"
    by (simp only: readlines_concat[OF ok])
  also have "\<dots> = writelines (renumber ls)" by (simp only: idem)
  also have "\<dots> = renumber_file content" by (simp add: renumber_file_def ls_def)
  finally show ?thesis .
qed

text \<open>
  Without the condition on the width of the records the claim fails: for an ATOM record
  followed by a bare \<open>TER\<close> line the first run puts the counter text after the
  terminator of the TER line, and the second run, which reads that text as a line of its
  own, adds it once more.
\<close>

theorem renumber_file_idempotent_counterexample:
  "renumber_file (atom_line ''   5'' @ ''TER\<newline>'')
     = atom_line ''   1'' @ ''TER\<newline>   1'' \<and>
   renumber_file (renumber_file (atom_line ''   5'' @ ''TER\<newline>''))
     = atom_line ''   1'' @ ''TER\<newline>   1   1'' \<and>
   renumber_file (renumber_file (atom_line ''   5'' @ ''TER\<newline>''))
     \<noteq> renumber_file (atom_line ''   5'' @ ''TER\<newline>'')"
  by code_simp

text \<open>Two ATOM records, a TER record and an END line, all of full width.\<close>

theorem renumber_file_idempotent_witness:
  "list_all (\<lambda>l. startswith l ''ATOM'' \<or> startswith l ''TER'' \<longrightarrow>
               26 \<le> length l \<and> CHR 0x0A \<notin> set (take 26 l))
     (readlines (atom_line ''   5'' @ atom_line ''   9'' @ ter_line ''   9'' @ ''END\<newline>'')) \<and>
   length (filter (\<lambda>l. startswith l ''ATOM'')
     (readlines (atom_line ''   5'' @ atom_line ''   9'' @ ter_line ''   9'' @ ''END\<newline>'')))
     < 10000 \<and>
   renumber_file (atom_line ''   5'' @ atom_line ''   9'' @ ter_line ''   9'' @ ''END\<newline>'')
     = atom_line ''   1'' @ atom_line ''   2'' @ ter_line ''   2'' @ ''END\<newline>'' \<and>
   renumber_file
     (renumber_file (atom_line ''   5'' @ atom_line ''   9'' @ ter_line ''   9'' @ ''END\<newline>''))
     = atom_line ''   1'' @ atom_line ''   2'' @ ter_line ''   2'' @ ''END\<newline>''"
proof -
  define c where "c = atom_line ''   5'' @ atom_line ''   9'' @ ter_line ''   9'' @ ''END\<newline>''"
  have a: "list_all (\<lambda>l. startswith l ''ATOM'' \<or> startswith l ''TER'' \<longrightarrow>
               26 \<le> length l \<and> CHR 0x0A \<notin> set (take 26 l)) (readlines c)"
    unfolding c_def by code_simp
  have b: "length (filter (\<lambda>l. startswith l ''ATOM'') (readlines c)) < 10000"
    unfolding c_def by code_simp
  have e: "renumber_file c
     = atom_line ''   1'' @ atom_line ''   2'' @ ter_line ''   2'' @ ''END\<newline>''"
    unfolding c_def by code_simp
  from a have a': "\<forall>l\<in>set (readlines c).
             startswith l ''ATOM'' \<or> startswith l ''TER'' \<longrightarrow>
               26 \<le> length l \<and> CHR 0x0A \<notin> set (take 26 l)"
    by (simp only: list_all_iff)
  from renumber_file_idempotent[OF a' b] e
  have "renumber_file (renumber_file c)
     = atom_line ''   1'' @ atom_line ''   2'' @ ter_line ''   2'' @ ''END\<newline>''"
    by (simp only:)
  with a b e show ?thesis unfolding c_def by blast
qed

section \<open>Windows of the chains of a file\<close>

text \<open>
  Claim C1 at a structure with one model and two chains of nine residues each. The first
  chain gets its one window (saved eight times). The second chain gets none: \<open>start\<close> is
  2 when its loop begins (the pass that left the first chain's loop had already added
  one), becomes 3, and \<open>3 + 8 > 9\<close> leaves the loop at once. For
  the first chain of a file the windows are those of the claim (\<open>first_chain_windows\<close>
  above); for every later chain the residue loop starts from the value the chain before
  left in \<open>start\<close> (\<open>residue_loop_windows\<close>).
\<close>

theorem later_chain_windows_lost:
  "length (residues (numbered_chain ''A'' 1 9)) = 9 \<and>
   length (residues (numbered_chain ''B'' 1 9)) = 9 \<and>
   split_file ''data'' ''1abc''
     [\<lparr>model_id = 0, chains = [numbered_chain ''A'' 1 9, numbered_chain ''B'' 1 9]\<rparr>]
   = [[replicate 8 (save_window ''data'' ''1abc'' ''A'' 1), []]]"
  by code_simp

section \<open>Chains shorter than a window\<close>

text \<open>
  Claim C6, with the selector as the library documents it. For every chain of every
  model of a file, the residue count being the number of entries of
  \<open>chain.get_residues()\<close>, hetero residues included: if the chain has fewer than 9
  residues, no call of \<open>io.save\<close> is made while it is walked; every call made while a
  chain is walked passes the range \<open>[start, start + 8]\<close> with \<open>1 \<le> start\<close> and
  \<open>start + 8\<close> at most the residue count; the loop over the residues ends as soon as
  \<open>start + 8 > length\<close>. If moreover no other chain of the structure carries the id of
  the short chain, no call of the run selects the chain, and what each call writes is
  what it would write if the chain had any other residues \<open>other\<close> (none, for example):
  no residue of the chain is written to any file.
\<close>

theorem short_chain_no_window:
  assumes "m < length structure" and "i < length (chains (structure ! m))"
  shows "(length (residues (chains (structure ! m) ! i)) < 9 \<longrightarrow>
            split_file d p structure ! m ! i = []) \<and>
         (\<forall>call \<in> set (split_file d p structure ! m ! i).
            1 \<le> sel_start (selection call) \<and>
            sel_end (selection call) = sel_start (selection call) + 8 \<and>
            sel_end (selection call) \<le> int (length (residues (chains (structure ! m) ! i)))) \<and>
         (\<forall>cid len start r rs. start + 1 + 8 > len \<longrightarrow>
            residue_loop d p cid len start (r # rs) = (start + 1, [])) \<and>
         (length (residues (chains (structure ! m) ! i)) < 9 \<and>
          (\<forall>m'<length structure. \<forall>i'<length (chains (structure ! m')).
             (m', i') \<noteq> (m, i) \<longrightarrow>
             chain_id (chains (structure ! m') ! i') \<noteq> chain_id (chains (structure ! m) ! i)) \<longrightarrow>
          (\<forall>call \<in> set (save_calls d p structure).
             \<not> accept_chain (selection call) (chains (structure ! m) ! i) \<and>
             saved_residues structure (selection call) =
               saved_residues (with_residues structure m i other) (selection call) \<and>
             saved_atoms structure (selection call) =
               saved_atoms (with_residues structure m i other) (selection call)))"
proof -
  have none: "split_file d p structure ! m ! i = []"
    if short: "length (residues (chains (structure ! m) ! i)) < 9"
  proof (rule ccontr)
    assume "split_file d p structure ! m ! i \<noteq> []"
    then obtain call where "call \<in> set (split_file d p structure ! m ! i)"
      by (cases "split_file d p structure ! m ! i") auto
    then have "call \<in> set (snd (model_loop d p 0 structure) ! m ! i)"
      by (simp add: split_file_def)
    from model_loop_calls[OF _ assms this] short show False by simp
  qed
  have full: "\<forall>call \<in> set (split_file d p structure ! m ! i).
            1 \<le> sel_start (selection call) \<and>
            sel_end (selection call) = sel_start (selection call) + 8 \<and>
            sel_end (selection call) \<le> int (length (residues (chains (structure ! m) ! i)))"
  proof
    fix call assume "call \<in> set (split_file d p structure ! m ! i)"
    then have "call \<in> set (snd (model_loop d p 0 structure) ! m ! i)"
      by (simp add: split_file_def)
    from model_loop_calls[OF _ assms this]
    show "1 \<le> sel_start (selection call) \<and>
          sel_end (selection call) = sel_start (selection call) + 8 \<and>
          sel_end (selection call) \<le> int (length (residues (chains (structure ! m) ! i)))"
      by simp
  qed
  have brk: "\<forall>cid len start r rs. start + 1 + 8 > len \<longrightarrow>
            residue_loop d p cid len start (r # rs) = (start + 1, [])"
    by (simp add: residue_loop_Cons del: residue_loop.simps(2))
  have kept: "\<forall>call \<in> set (save_calls d p structure).
             \<not> accept_chain (selection call) (chains (structure ! m) ! i) \<and>
             saved_residues structure (selection call) =
               saved_residues (with_residues structure m i other) (selection call) \<and>
             saved_atoms structure (selection call) =
               saved_atoms (with_residues structure m i other) (selection call)"
    if short: "length (residues (chains (structure ! m) ! i)) < 9"
      and only: "\<forall>m'<length structure. \<forall>i'<length (chains (structure ! m')).
             (m', i') \<noteq> (m, i) \<longrightarrow>
             chain_id (chains (structure ! m') ! i') \<noteq> chain_id (chains (structure ! m) ! i)"
  proof
    fix call assume "call \<in> set (save_calls d p structure)"
    from save_calls_origin[OF this] obtain m' i' where m': "m' < length structure"
      and i': "i' < length (chains (structure ! m'))"
      and c: "call \<in> set (split_file d p structure ! m' ! i')" by blast
    from c none[OF short] have ne: "(m', i') \<noteq> (m, i)" by auto
    from c have "call \<in> set (snd (model_loop d p 0 structure) ! m' ! i')"
      by (simp add: split_file_def)
    from model_loop_calls[OF _ m' i' this]
    have "sel_chain_id (selection call) = chain_id (chains (structure ! m') ! i')" by simp
    with only m' i' ne have rej: "\<not> accept_chain (selection call) (chains (structure ! m) ! i)"
      unfolding accept_chain_def by metis
    from with_residues_rejected[OF assms rej]
    have r: "saved_residues structure (selection call) =
               saved_residues (with_residues structure m i other) (selection call)" by simp
    then have "saved_atoms structure (selection call) =
               saved_atoms (with_residues structure m i other) (selection call)"
      by (simp add: saved_atoms_def)
    with rej r show "\<not> accept_chain (selection call) (chains (structure ! m) ! i) \<and>
             saved_residues structure (selection call) =
               saved_residues (with_residues structure m i other) (selection call) \<and>
             saved_atoms structure (selection call) =
               saved_atoms (with_residues structure m i other) (selection call)" by blast
  qed
  from none full brk kept show ?thesis by blast
qed

text \<open>
  Without the condition on the chain ids, residues of a short chain are written: for a
  chain A of 5 residues in model 0 and a chain A of 10 residues in model 1, no call is
  made for the first, but the call made for the second with \<open>start = 2\<close> selects model 0
  and writes the residues 2 to 5 of the short chain to \<open>data/1abc_2.pdb\<close>. And a file can
  hold fewer than 9 residues: for a chain of 8 residues followed by a water numbered 9,
  the residue count is 9, a call is made with \<open>start = 1\<close>, and its file holds the 8
  residues.
\<close>

theorem short_chain_no_window_counterexample:
  "length (residues (chains
      ([\<lparr>model_id = 0, chains = [sample_chain ''A'' (map (Pair False) [1..5])]\<rparr>,
        \<lparr>model_id = 1, chains = [sample_chain ''A'' (map (Pair False) [1..10])]\<rparr>] ! 0) ! 0)) = 5 \<and>
   split_file ''data'' ''1abc''
      [\<lparr>model_id = 0, chains = [sample_chain ''A'' (map (Pair False) [1..5])]\<rparr>,
       \<lparr>model_id = 1, chains = [sample_chain ''A'' (map (Pair False) [1..10])]\<rparr>] ! 0 ! 0 = [] \<and>
   save_window ''data'' ''1abc'' ''A'' 2 \<in> set (save_calls ''data'' ''1abc''
      [\<lparr>model_id = 0, chains = [sample_chain ''A'' (map (Pair False) [1..5])]\<rparr>,
       \<lparr>model_id = 1, chains = [sample_chain ''A'' (map (Pair False) [1..10])]\<rparr>]) \<and>
   file_save (save_window ''data'' ''1abc'' ''A'' 2) = ''data/1abc_2.pdb'' \<and>
   saved_residues
      [\<lparr>model_id = 0, chains = [sample_chain ''A'' (map (Pair False) [1..5])]\<rparr>,
       \<lparr>model_id = 1, chains = [sample_chain ''A'' (map (Pair False) [1..10])]\<rparr>]
      (selection (save_window ''data'' ''1abc'' ''A'' 2))
     = drop 1 (residues (sample_chain ''A'' (map (Pair False) [1..5]))) \<and>
   map atom_record (saved_atoms
      [\<lparr>model_id = 0, chains = [sample_chain ''A'' (map (Pair False) [1..5])]\<rparr>,
       \<lparr>model_id = 1, chains = [sample_chain ''A'' (map (Pair False) [1..10])]\<rparr>]
      (selection (save_window ''data'' ''1abc'' ''A'' 2)))
     = [''CA2'', ''CA3'', ''CA4'', ''CA5''] \<and>
   length (residues (sample_chain ''A''
      [(False, 1), (False, 2), (False, 3), (False, 4), (False, 5), (False, 6), (False, 7),
       (False, 8), (True, 9)])) = 9 \<and>
   save_window ''data'' ''1abc'' ''A'' 1 \<in> set (save_calls ''data'' ''1abc''
      [\<lparr>model_id = 0, chains = [sample_chain ''A''
        [(False, 1), (False, 2), (False, 3), (False, 4), (False, 5), (False, 6), (False, 7),
         (False, 8), (True, 9)]]\<rparr>]) \<and>
   map res_id (saved_residues
      [\<lparr>model_id = 0, chains = [sample_chain ''A''
        [(False, 1), (False, 2), (False, 3), (False, 4), (False, 5), (False, 6), (False, 7),
         (False, 8), (True, 9)]]\<rparr>]
      (selection (save_window ''data'' ''1abc'' ''A'' 1)))
     = [1, 2, 3, 4, 5, 6, 7, 8]"
  by code_simp

text \<open>
  A chain A of 8 residues, followed by a chain B of 10: nothing is saved while A is
  walked, the loop over its residues ends at the first residue, the one call made for B
  passes the range 2 to 10 within its 10 residues, does not select A, and writes what it
  would write if A had no residues.
\<close>

theorem short_chain_no_window_witness:
  "0 < length [\<lparr>model_id = 0, chains = [sample_chain ''A'' (map (Pair False) [1..8]),
                                         sample_chain ''B'' (map (Pair False) [1..10])]\<rparr>] \<and>
   1 < length (chains ([\<lparr>model_id = 0,
          chains = [sample_chain ''A'' (map (Pair False) [1..8]),
                    sample_chain ''B'' (map (Pair False) [1..10])]\<rparr>] ! 0)) \<and>
   length (residues (chains ([\<lparr>model_id = 0,
          chains = [sample_chain ''A'' (map (Pair False) [1..8]),
                    sample_chain ''B'' (map (Pair False) [1..10])]\<rparr>] ! 0) ! 0)) < 9 \<and>
   split_file ''data'' ''1abc''
     [\<lparr>model_id = 0, chains = [sample_chain ''A'' (map (Pair False) [1..8]),
                               sample_chain ''B'' (map (Pair False) [1..10])]\<rparr>] ! 0 ! 0 = [] \<and>
   save_window ''data'' ''1abc'' ''B'' 2 \<in> set (split_file ''data'' ''1abc''
     [\<lparr>model_id = 0, chains = [sample_chain ''A'' (map (Pair False) [1..8]),
                               sample_chain ''B'' (map (Pair False) [1..10])]\<rparr>] ! 0 ! 1) \<and>
   sel_end (selection (save_window ''data'' ''1abc'' ''B'' 2))
     \<le> int (length (residues (chains ([\<lparr>model_id = 0,
          chains = [sample_chain ''A'' (map (Pair False) [1..8]),
                    sample_chain ''B'' (map (Pair False) [1..10])]\<rparr>] ! 0) ! 1))) \<and>
   save_window ''data'' ''1abc'' ''B'' 2 \<in> set (save_calls ''data'' ''1abc''
     [\<lparr>model_id = 0, chains = [sample_chain ''A'' (map (Pair False) [1..8]),
                               sample_chain ''B'' (map (Pair False) [1..10])]\<rparr>]) \<and>
   \<not> accept_chain (selection (save_window ''data'' ''1abc'' ''B'' 2))
       (chains ([\<lparr>model_id = 0,
          chains = [sample_chain ''A'' (map (Pair False) [1..8]),
                    sample_chain ''B'' (map (Pair False) [1..10])]\<rparr>] ! 0) ! 0) \<and>
   saved_atoms
     [\<lparr>model_id = 0, chains = [sample_chain ''A'' (map (Pair False) [1..8]),
                               sample_chain ''B'' (map (Pair False) [1..10])]\<rparr>]
     (selection (save_window ''data'' ''1abc'' ''B'' 2)) =
   saved_atoms
     (with_residues
        [\<lparr>model_id = 0, chains = [sample_chain ''A'' (map (Pair False) [1..8]),
                                  sample_chain ''B'' (map (Pair False) [1..10])]\<rparr>] 0 0 [])
     (selection (save_window ''data'' ''1abc'' ''B'' 2)) \<and>
   (0::int) + 1 + 8 > 8 \<and>
   residue_loop ''data'' ''1abc'' ''A'' 8 0
     (residues (sample_chain ''A'' (map (Pair False) [1..8]))) = (0 + 1, [])"
proof -
  define S where
    "S = [\<lparr>model_id = 0, chains = [sample_chain ''A'' (map (Pair False) [1..8]),
                                  sample_chain ''B'' (map (Pair False) [1..10])]\<rparr>]"
  define call where "call = save_window ''data'' ''1abc'' ''B'' 2"
  have a: "0 < length S" unfolding S_def by simp
  have b0: "0 < length (chains (S ! 0))" and b1: "1 < length (chains (S ! 0))"
    unfolding S_def by simp_all
  have c: "length (residues (chains (S ! 0) ! 0)) < 9" unfolding S_def by code_simp
  have only: "\<forall>m'<length S. \<forall>i'<length (chains (S ! m')).
             (m', i') \<noteq> (0, 0) \<longrightarrow>
             chain_id (chains (S ! m') ! i') \<noteq> chain_id (chains (S ! 0) ! 0)"
    unfolding S_def by (auto simp: less_Suc_eq sample_chain_def)
  have in1: "call \<in> set (split_file ''data'' ''1abc'' S ! 0 ! 1)"
    unfolding S_def call_def by code_simp
  have inall: "call \<in> set (save_calls ''data'' ''1abc'' S)"
    unfolding S_def call_def by code_simp
  have rs: "residues (sample_chain ''A'' (map (Pair False) [1..8])) =
            hd (residues (sample_chain ''A'' (map (Pair False) [1..8]))) #
            tl (residues (sample_chain ''A'' (map (Pair False) [1..8])))"
    by code_simp
  have gt: "(0::int) + 1 + 8 > 8" by simp
  note t0 = short_chain_no_window[OF a b0, of "''data''" "''1abc''" "[]"]
  note t1 = short_chain_no_window[OF a b1, of "''data''" "''1abc''" "[]"]
  from t0 c have e: "split_file ''data'' ''1abc'' S ! 0 ! 0 = []" by blast
  from t1 in1 have f: "sel_end (selection call) \<le> int (length (residues (chains (S ! 0) ! 1)))"
    by blast
  from t0 c only inall have g: "\<not> accept_chain (selection call) (chains (S ! 0) ! 0) \<and>
      saved_atoms S (selection call) = saved_atoms (with_residues S 0 0 []) (selection call)"
    by blast
  from t0 gt have "residue_loop ''data'' ''1abc'' ''A'' 8 0
      (hd (residues (sample_chain ''A'' (map (Pair False) [1..8]))) #
       tl (residues (sample_chain ''A'' (map (Pair False) [1..8])))) = (0 + 1, [])"
    by blast
  then have h: "residue_loop ''data'' ''1abc'' ''A'' 8 0
      (residues (sample_chain ''A'' (map (Pair False) [1..8]))) = (0 + 1, [])"
    unfolding rs[symmetric] .
  from a b1 c e in1 f inall g gt h show ?thesis unfolding S_def call_def by blast
qed

section \<open>Saving the same window eight times\<close>

text \<open>
  Claim C7. The eight calls of the inner loop leave the file system as a single call
  does: the file at the window's path holds the serialized window. Hence the file system
  after the script's calls on a structure equals the file system after the calls of the
  design that saves every window once.
\<close>

theorem repeated_save_equivalent:
  "apply_saves serialize fs (inner_loop directory file_prefix cid start) =
     fs(file_save (save_window directory file_prefix cid start) \<mapsto>
          serialize (selection (save_window directory file_prefix cid start))) \<and>
   apply_saves serialize fs (inner_loop directory file_prefix cid start) =
     apply_saves serialize fs [save_window directory file_prefix cid start] \<and>
   apply_saves serialize fs (save_calls directory file_prefix structure) =
     apply_saves serialize fs (save_calls_once directory file_prefix structure)"
proof (intro conjI)
  show "apply_saves serialize fs (inner_loop directory file_prefix cid start) =
     fs(file_save (save_window directory file_prefix cid start) \<mapsto>
          serialize (selection (save_window directory file_prefix cid start)))"
    by (simp only: apply_saves_inner_loop apply_saves.simps)
  show "apply_saves serialize fs (inner_loop directory file_prefix cid start) =
     apply_saves serialize fs [save_window directory file_prefix cid start]"
    by (rule apply_saves_inner_loop)
  show "apply_saves serialize fs (save_calls directory file_prefix structure) =
     apply_saves serialize fs (save_calls_once directory file_prefix structure)"
    by (simp only: save_calls_def save_calls_once_def split_file_def model_loop_once_saves)
qed

text \<open>
  A chain of 10 residues: the script makes 16 calls, the corrected design 2, and the
  files are the same.
\<close>

theorem repeated_save_equivalent_witness:
  "apply_saves (\<lambda>sel. sel) Map.empty
     (save_calls ''data'' ''1abc'' [\<lparr>model_id = 0, chains = [numbered_chain ''A'' 1 10]\<rparr>]) =
   apply_saves (\<lambda>sel. sel) Map.empty
     (save_calls_once ''data'' ''1abc'' [\<lparr>model_id = 0, chains = [numbered_chain ''A'' 1 10]\<rparr>]) \<and>
   length (save_calls ''data'' ''1abc'' [\<lparr>model_id = 0, chains = [numbered_chain ''A'' 1 10]\<rparr>])
     = 16 \<and>
   save_calls_once ''data'' ''1abc'' [\<lparr>model_id = 0, chains = [numbered_chain ''A'' 1 10]\<rparr>]
     = [save_window ''data'' ''1abc'' ''A'' 1, save_window ''data'' ''1abc'' ''A'' 2]"
proof -
  define S where "S = [\<lparr>model_id = 0, chains = [numbered_chain ''A'' 1 10]\<rparr>]"
  have n: "length (save_calls ''data'' ''1abc'' S) = 16" unfolding S_def by code_simp
  have o: "save_calls_once ''data'' ''1abc'' S
     = [save_window ''data'' ''1abc'' ''A'' 1, save_window ''data'' ''1abc'' ''A'' 2]"
    unfolding S_def by code_simp
  from repeated_save_equivalent[of "\<lambda>sel. sel" Map.empty "''data''" "''1abc''" _ _ S]
  have "apply_saves (\<lambda>sel. sel) Map.empty (save_calls ''data'' ''1abc'' S) =
        apply_saves (\<lambda>sel. sel) Map.empty (save_calls_once ''data'' ''1abc'' S)"
    by blast
  with n o show ?thesis unfolding S_def by blast
qed

section \<open>What a window file contains\<close>

text \<open>
  Claim C9, with the selector as the library documents it. Let \<open>s\<close> be a value the
  counter \<open>start\<close> takes while the chain at position \<open>i\<close> of the model at position
  \<open>m\<close> is walked and \<open>s + 8\<close> does not exceed the residue count: a value above the one
  left by the chains before. The calls made for the chain are the eight calls of the
  inner loop for each such value, in increasing order; among them is the call that saves
  \<open>ChainSelector(chain_id, s, s + 8)\<close> to the file named
  \<open>file_prefix + '_' + str(s) + '.pdb'\<close>, and no other call of the run writes to that
  file. When the script has run, that file holds the records of the atoms that are not
  hydrogens, of the residues that are not hetero residues and whose sequence number lies
  in \<open>[s, s + 8]\<close>, of the chains with that chain id in the models with id 0: the
  residues are selected by sequence number, the positions of the residues in the chain
  play no part. When the chain is the only chain with its id in its model and the model
  is the only one with id 0, these are the residues of the chain itself with a number in
  \<open>[s, s + 8]\<close>; and if, moreover, the chain has no hetero residue and its sequence
  numbers increase, the file holds the 9 residues at the positions \<open>s\<close> to \<open>s + 8\<close>
  exactly when those residues carry the numbers \<open>s\<close> to \<open>s + 8\<close>.
\<close>

theorem window_selected_by_number:
  assumes "m < length structure" and "i < length (chains (structure ! m))"
    and "start_at d p structure m i < s"
    and "s + 8 \<le> int (length (residues (chains (structure ! m) ! i)))"
  shows
    "split_file d p structure ! m ! i =
       concat (map (inner_loop d p (chain_id (chains (structure ! m) ! i)))
         [start_at d p structure m i + 1 ..
          int (length (residues (chains (structure ! m) ! i))) - 8]) \<and>
     save_window d p (chain_id (chains (structure ! m) ! i)) s
       \<in> set (split_file d p structure ! m ! i) \<and>
     (\<forall>call \<in> set (save_calls d p structure).
        file_save call = path_join d (p @ ''_'' @ str s @ ''.pdb'') \<longrightarrow>
        call = save_window d p (chain_id (chains (structure ! m) ! i)) s) \<and>
     apply_saves (saved_atoms structure) fs (save_calls d p structure)
         (path_join d (p @ ''_'' @ str s @ ''.pdb''))
       = Some (saved_atoms structure
                 (ChainSelector (chain_id (chains (structure ! m) ! i)) s (s + 8))) \<and>
     saved_atoms structure (ChainSelector (chain_id (chains (structure ! m) ! i)) s (s + 8)) =
       concat (map (\<lambda>r. filter (\<lambda>a. \<not> is_hydrogen (atom_name a)) (res_atoms r))
         (saved_residues structure
            (ChainSelector (chain_id (chains (structure ! m) ! i)) s (s + 8)))) \<and>
     saved_residues structure (ChainSelector (chain_id (chains (structure ! m) ! i)) s (s + 8)) =
       concat (map (\<lambda>x::model.
         concat (map (\<lambda>c'::chain.
             filter (\<lambda>r. \<not> hetero r \<and> s \<le> res_id r \<and> res_id r \<le> s + 8) (residues c'))
           (filter (\<lambda>c'. chain_id c' = chain_id (chains (structure ! m) ! i)) (chains x))))
         (filter (\<lambda>x. model_id x = 0) structure)) \<and>
     (model_id (structure ! m) = 0 \<and>
      (\<forall>m'<length structure. m' \<noteq> m \<longrightarrow> model_id (structure ! m') \<noteq> 0) \<and>
      (\<forall>i'<length (chains (structure ! m)). i' \<noteq> i \<longrightarrow>
         chain_id (chains (structure ! m) ! i') \<noteq> chain_id (chains (structure ! m) ! i)) \<longrightarrow>
        saved_residues structure
            (ChainSelector (chain_id (chains (structure ! m) ! i)) s (s + 8)) =
          filter (\<lambda>r. \<not> hetero r \<and> s \<le> res_id r \<and> res_id r \<le> s + 8)
            (residues (chains (structure ! m) ! i)) \<and>
        (sorted_wrt (<) (map res_id (residues (chains (structure ! m) ! i))) \<and>
         (\<forall>r\<in>set (residues (chains (structure ! m) ! i)). \<not> hetero r) \<longrightarrow>
           (saved_residues structure
                (ChainSelector (chain_id (chains (structure ! m) ! i)) s (s + 8))
              = take 9 (drop (nat (s - 1)) (residues (chains (structure ! m) ! i)))
            \<longleftrightarrow>
            map res_id (take 9 (drop (nat (s - 1)) (residues (chains (structure ! m) ! i))))
              = [s .. s + 8])))"
proof -
  define c where "c = chains (structure ! m) ! i"
  define w where "w = save_window d p (chain_id c) s"
  define path where "path = path_join d (p @ ''_'' @ str s @ ''.pdb'')"
  define sel where "sel = ChainSelector (chain_id c) s (s + 8)"
  have s0: "0 \<le> start_at d p structure m i" by (rule start_at_nonneg)
  with assms(3) have lo: "1 \<le> s" by simp
  have hi: "s + 8 \<le> int (length (residues c))" using assms(4) by (simp add: c_def)
  have wf: "file_save w = path" and ws: "selection w = sel"
    by (simp_all add: w_def path_def sel_def save_window_def)
  have calls: "split_file d p structure ! m ! i =
       concat (map (inner_loop d p (chain_id c))
         [start_at d p structure m i + 1 .. int (length (residues c)) - 8])"
    unfolding c_def by (rule chain_windows[OF assms(1,2)])
  have win: "w \<in> set (split_file d p structure ! m ! i)"
  proof -
    from assms(3) hi
    have "s \<in> set [start_at d p structure m i + 1 .. int (length (residues c)) - 8]" by simp
    moreover have "w \<in> set (inner_loop d p (chain_id c) s)"
      by (simp add: inner_loop_replicate w_def)
    ultimately show ?thesis unfolding calls by auto
  qed
  have wall: "w \<in> set (save_calls d p structure)"
    by (rule split_file_subset[OF assms(1,2) win])
  have named: "\<forall>call \<in> set (save_calls d p structure). file_save call = path \<longrightarrow> call = w"
  proof (intro ballI impI)
    fix call assume cl: "call \<in> set (save_calls d p structure)" and f: "file_save call = path"
    from save_calls_shape[OF cl] f lo
    have "sel_start (selection call) = s"
      unfolding path_def by (intro window_name_inj[of _ _ d p]) simp_all
    then have "sel_start (selection call) = sel_start (selection w)"
      by (simp add: w_def save_window_sel)
    from save_calls_unique[OF cl wall this] show "call = w" .
  qed
  have written: "apply_saves (saved_atoms structure) fs (save_calls d p structure) path
       = Some (saved_atoms structure sel)"
    using window_file[OF wall, of "saved_atoms structure" fs] by (simp only: wf ws)
  have atoms: "saved_atoms structure sel =
       concat (map (\<lambda>r. filter (\<lambda>a. \<not> is_hydrogen (atom_name a)) (res_atoms r))
         (saved_residues structure sel))"
    unfolding sel_def by (rule saved_atoms_ChainSelector)
  have res: "saved_residues structure sel =
       concat (map (\<lambda>x::model.
         concat (map (\<lambda>c'::chain.
             filter (\<lambda>r. \<not> hetero r \<and> s \<le> res_id r \<and> res_id r \<le> s + 8) (residues c'))
           (filter (\<lambda>c'. chain_id c' = chain_id c) (chains x))))
         (filter (\<lambda>x. model_id x = 0) structure))"
    unfolding sel_def by (rule saved_residues_ChainSelector)
  have only: "saved_residues structure sel =
          filter (\<lambda>r. \<not> hetero r \<and> s \<le> res_id r \<and> res_id r \<le> s + 8) (residues c) \<and>
        (sorted_wrt (<) (map res_id (residues c)) \<and> (\<forall>r\<in>set (residues c). \<not> hetero r) \<longrightarrow>
           (saved_residues structure sel = take 9 (drop (nat (s - 1)) (residues c))
            \<longleftrightarrow> map res_id (take 9 (drop (nat (s - 1)) (residues c))) = [s .. s + 8]))"
    if u: "model_id (structure ! m) = 0 \<and>
      (\<forall>m'<length structure. m' \<noteq> m \<longrightarrow> model_id (structure ! m') \<noteq> 0) \<and>
      (\<forall>i'<length (chains (structure ! m)). i' \<noteq> i \<longrightarrow>
         chain_id (chains (structure ! m) ! i') \<noteq> chain_id c)"
  proof -
    from u have u1: "model_id (structure ! m) = 0"
      and u2: "\<forall>m'<length structure. m' \<noteq> m \<longrightarrow> model_id (structure ! m') \<noteq> 0"
      and u3: "\<forall>i'<length (chains (structure ! m)). i' \<noteq> i \<longrightarrow>
         chain_id (chains (structure ! m) ! i') \<noteq> chain_id (chains (structure ! m) ! i)"
      unfolding c_def by blast+
    have e: "saved_residues structure sel =
          filter (\<lambda>r. \<not> hetero r \<and> s \<le> res_id r \<and> res_id r \<le> s + 8) (residues c)"
      unfolding sel_def c_def by (rule saved_residues_only[OF assms(1,2) u1 u2 u3])
    have "sorted_wrt (<) (map res_id (residues c)) \<and> (\<forall>r\<in>set (residues c). \<not> hetero r) \<longrightarrow>
           (saved_residues structure sel = take 9 (drop (nat (s - 1)) (residues c))
            \<longleftrightarrow> map res_id (take 9 (drop (nat (s - 1)) (residues c))) = [s .. s + 8])"
      unfolding e using ordinal_window_iff[OF _ _ lo hi] by blast
    with e show ?thesis by blast
  qed
  from calls win named written atoms res only show ?thesis
    unfolding c_def w_def path_def sel_def by blast
qed

text \<open>
  The claim as stated fails on a chain numbered 1 to 9 and 11, followed by a water
  numbered 10. The numbering is not contiguous, yet the file for \<open>start = 1\<close> holds the
  9 residues at the positions 1 to 9. The file for \<open>start = 2\<close> does not hold exactly the
  atom records of the residues numbered 2 to 10: the water is left out although its
  number is 10, and so are the hydrogens of the residues 2 to 9.
\<close>

theorem window_selected_by_number_counterexample:
  "map res_id (residues (sample_chain ''A''
      [(False, 1), (False, 2), (False, 3), (False, 4), (False, 5), (False, 6), (False, 7),
       (False, 8), (False, 9), (False, 11), (True, 10)]))
     = [1, 2, 3, 4, 5, 6, 7, 8, 9, 11, 10] \<and>
   save_window ''data'' ''1abc'' ''A'' 1 \<in> set (split_file ''data'' ''1abc''
      [\<lparr>model_id = 0, chains = [sample_chain ''A''
        [(False, 1), (False, 2), (False, 3), (False, 4), (False, 5), (False, 6), (False, 7),
         (False, 8), (False, 9), (False, 11), (True, 10)]]\<rparr>] ! 0 ! 0) \<and>
   saved_residues
      [\<lparr>model_id = 0, chains = [sample_chain ''A''
        [(False, 1), (False, 2), (False, 3), (False, 4), (False, 5), (False, 6), (False, 7),
         (False, 8), (False, 9), (False, 11), (True, 10)]]\<rparr>]
      (selection (save_window ''data'' ''1abc'' ''A'' 1))
     = take 9 (residues (sample_chain ''A''
        [(False, 1), (False, 2), (False, 3), (False, 4), (False, 5), (False, 6), (False, 7),
         (False, 8), (False, 9), (False, 11), (True, 10)])) \<and>
   save_window ''data'' ''1abc'' ''A'' 2 \<in> set (split_file ''data'' ''1abc''
      [\<lparr>model_id = 0, chains = [sample_chain ''A''
        [(False, 1), (False, 2), (False, 3), (False, 4), (False, 5), (False, 6), (False, 7),
         (False, 8), (False, 9), (False, 11), (True, 10)]]\<rparr>] ! 0 ! 0) \<and>
   map_option (map atom_record)
     (apply_saves
        (saved_atoms
           [\<lparr>model_id = 0, chains = [sample_chain ''A''
             [(False, 1), (False, 2), (False, 3), (False, 4), (False, 5), (False, 6), (False, 7),
              (False, 8), (False, 9), (False, 11), (True, 10)]]\<rparr>])
        Map.empty
        (save_calls ''data'' ''1abc''
           [\<lparr>model_id = 0, chains = [sample_chain ''A''
             [(False, 1), (False, 2), (False, 3), (False, 4), (False, 5), (False, 6), (False, 7),
              (False, 8), (False, 9), (False, 11), (True, 10)]]\<rparr>])
        ''data/1abc_2.pdb'')
     = Some [''CA2'', ''CA3'', ''CA4'', ''CA5'', ''CA6'', ''CA7'', ''CA8'', ''CA9'']"
  by code_simp

text \<open>
  A chain of 11 residues numbered 3 to 13, at \<open>start = 2\<close>: the file
  \<open>data/1abc_2.pdb\<close> holds the alpha carbons of the residues numbered 3 to 10, the 8
  residues of the chain with a number between 2 and 10, and not the 9 residues at the
  positions 2 to 10, which are numbered 4 to 12.
\<close>

theorem window_selected_by_number_witness:
  "0 < length [\<lparr>model_id = 0, chains = [sample_chain ''A'' (map (Pair False) [3..13])]\<rparr>] \<and>
   0 < length (chains ([\<lparr>model_id = 0, chains = [sample_chain ''A'' (map (Pair False) [3..13])]\<rparr>] ! 0)) \<and>
   start_at ''data'' ''1abc'' [\<lparr>model_id = 0, chains = [sample_chain ''A'' (map (Pair False) [3..13])]\<rparr>] 0 0 < 2 \<and>
   2 + 8 \<le> int (length (residues (chains ([\<lparr>model_id = 0, chains = [sample_chain ''A'' (map (Pair False) [3..13])]\<rparr>] ! 0) ! 0))) \<and>
   map res_id (residues (chains ([\<lparr>model_id = 0, chains = [sample_chain ''A'' (map (Pair False) [3..13])]\<rparr>] ! 0) ! 0)) = [3, 4, 5, 6, 7, 8, 9, 10, 11, 12, 13] \<and>
   save_window ''data'' ''1abc'' ''A'' 2 \<in> set (split_file ''data'' ''1abc'' [\<lparr>model_id = 0, chains = [sample_chain ''A'' (map (Pair False) [3..13])]\<rparr>] ! 0 ! 0) \<and>
   map_option (map atom_record)
     (apply_saves (saved_atoms [\<lparr>model_id = 0, chains = [sample_chain ''A'' (map (Pair False) [3..13])]\<rparr>]) Map.empty (save_calls ''data'' ''1abc'' [\<lparr>model_id = 0, chains = [sample_chain ''A'' (map (Pair False) [3..13])]\<rparr>])
        ''data/1abc_2.pdb'')
     = Some [''CA3'', ''CA4'', ''CA5'', ''CA6'', ''CA7'', ''CA8'', ''CA9'', ''CA10''] \<and>
   saved_residues [\<lparr>model_id = 0, chains = [sample_chain ''A'' (map (Pair False) [3..13])]\<rparr>] (ChainSelector ''A'' 2 (2 + 8))
     = filter (\<lambda>r. \<not> hetero r \<and> 2 \<le> res_id r \<and> res_id r \<le> 2 + 8)
         (residues (chains ([\<lparr>model_id = 0, chains = [sample_chain ''A'' (map (Pair False) [3..13])]\<rparr>] ! 0) ! 0)) \<and>
   saved_residues [\<lparr>model_id = 0, chains = [sample_chain ''A'' (map (Pair False) [3..13])]\<rparr>] (ChainSelector ''A'' 2 (2 + 8))
     \<noteq> take 9 (drop (nat (2 - 1)) (residues (chains ([\<lparr>model_id = 0, chains = [sample_chain ''A'' (map (Pair False) [3..13])]\<rparr>] ! 0) ! 0)))"
proof -
  define S where
    "S = [\<lparr>model_id = 0, chains = [sample_chain ''A'' (map (Pair False) [3..13])]\<rparr>]"
  have a: "0 < length S" unfolding S_def by simp
  have b: "0 < length (chains (S ! 0))" unfolding S_def by simp
  have c: "start_at ''data'' ''1abc'' S 0 0 < 2" unfolding S_def by code_simp
  have d: "2 + 8 \<le> int (length (residues (chains (S ! 0) ! 0)))" unfolding S_def by code_simp
  have ids: "map res_id (residues (chains (S ! 0) ! 0)) = [3, 4, 5, 6, 7, 8, 9, 10, 11, 12, 13]"
    unfolding S_def by code_simp
  have cid: "chain_id (chains (S ! 0) ! 0) = ''A''" unfolding S_def by code_simp
  have path: "path_join ''data'' (''1abc'' @ ''_'' @ str 2 @ ''.pdb'') = ''data/1abc_2.pdb''"
    by code_simp
  have recs: "map atom_record (saved_atoms S (ChainSelector ''A'' 2 (2 + 8)))
     = [''CA3'', ''CA4'', ''CA5'', ''CA6'', ''CA7'', ''CA8'', ''CA9'', ''CA10'']"
    unfolding S_def by code_simp
  have u1: "model_id (S ! 0) = 0" unfolding S_def by simp
  have u2: "\<forall>m'<length S. m' \<noteq> 0 \<longrightarrow> model_id (S ! m') \<noteq> 0" unfolding S_def by simp
  have u3: "\<forall>i'<length (chains (S ! 0)). i' \<noteq> 0 \<longrightarrow>
              chain_id (chains (S ! 0) ! i') \<noteq> chain_id (chains (S ! 0) ! 0)"
    unfolding S_def by simp
  have srt: "sorted_wrt (<) (map res_id (residues (chains (S ! 0) ! 0)))"
    unfolding S_def by code_simp
  have nh: "\<forall>r\<in>set (residues (chains (S ! 0) ! 0)). \<not> hetero r"
    unfolding S_def by code_simp
  have ne: "map res_id (take 9 (drop (nat (2 - 1)) (residues (chains (S ! 0) ! 0)))) \<noteq> [2 .. 2 + 8]"
    unfolding S_def by code_simp
  note t = window_selected_by_number[OF a b c d, where fs = Map.empty, unfolded cid path]
  from t have e: "save_window ''data'' ''1abc'' ''A'' 2 \<in> set (split_file ''data'' ''1abc'' S ! 0 ! 0)"
    by blast
  from t have "apply_saves (saved_atoms S) Map.empty (save_calls ''data'' ''1abc'' S)
                 ''data/1abc_2.pdb'' = Some (saved_atoms S (ChainSelector ''A'' 2 (2 + 8)))"
    by blast
  then have f: "map_option (map atom_record)
     (apply_saves (saved_atoms S) Map.empty (save_calls ''data'' ''1abc'' S) ''data/1abc_2.pdb'')
     = Some [''CA3'', ''CA4'', ''CA5'', ''CA6'', ''CA7'', ''CA8'', ''CA9'', ''CA10'']"
    by (simp only: option.map recs)
  note r = window_selected_by_number[OF a b c d, where fs = Map.empty,
      THEN conjunct2, THEN conjunct2, THEN conjunct2, THEN conjunct2, THEN conjunct2,
      THEN conjunct2, THEN mp, OF conjI[OF u1 conjI[OF u2 u3]]]
  note g = r[THEN conjunct1, unfolded cid]
  note k = r[THEN conjunct2, THEN mp, OF conjI[OF srt nh], unfolded cid]
  from k ne have h: "saved_residues S (ChainSelector ''A'' 2 (2 + 8))
     \<noteq> take 9 (drop (nat (2 - 1)) (residues (chains (S ! 0) ! 0)))"
    by blast
  from a b c d ids e f g h show ?thesis unfolding S_def by blast
qed

end
